theory Spec2Isabelle
  imports Main "HOL-Library.AList" "HOL-Library.Multiset"
begin

section \<open>Data model (models.py)\<close>

text \<open>
  A row of the table of \<open>Tache\<close>, which is also what a \<open>Tache\<close> object holds in memory: its
  primary key, the key of its project, its code, its duration and the six nullable integer
  columns that the calculator fills in. The name and the description are never read by
  the calculator and are left out.
\<close>

record tache =
  pk :: nat
  projet :: nat
  code :: string
  duree :: int
  date_debut_tot :: "int option"
  date_fin_tot :: "int option"
  date_debut_tard :: "int option"
  date_fin_tard :: "int option"
  marge_totale :: "int option"
  marge_libre :: "int option"

text \<open>
  The database: the rows of all the tasks, of every project, and the table of the
  many-to-many field \<open>dependances\<close>, in which a pair \<open>(a, d)\<close> says that the task of key \<open>a\<close>
  depends on the task of key \<open>d\<close>.
\<close>

record base =
  lignes :: "tache list"
  liens :: "(nat \<times> nat) list"

text \<open>
  The related manager \<open>dependances.all()\<close> of a task and its reverse accessor
  \<open>successeurs.all()\<close> (\<open>related_name='successeurs'\<close>). Both are queries on the whole table:
  they go by the key of the task and are not restricted to a project or to the tasks
  handed to the calculator. They return the rows in the order of the model
  (\<open>ordering = ['code']\<close>); here it is the order of the table.
\<close>

definition dependances :: "base \<Rightarrow> tache \<Rightarrow> tache list" where
  "dependances b t = filter (\<lambda>r. (pk t, pk r) \<in> set (liens b)) (lignes b)"

definition successeurs :: "base \<Rightarrow> tache \<Rightarrow> tache list" where
  "successeurs b t = filter (\<lambda>r. (pk r, pk t) \<in> set (liens b)) (lignes b)"

text \<open>
  The query \<open>projet.taches.all()\<close> with which the view \<open>_recalculer_pert\<close> builds the
  collection that it hands to the calculator.
\<close>

definition taches_du_projet :: "base \<Rightarrow> nat \<Rightarrow> tache list" where
  "taches_du_projet b pr = filter (\<lambda>t. projet t = pr) (lignes b)"

text \<open>\<open>Tache.get_dependances_codes\<close>.\<close>

definition get_dependances_codes :: "base \<Rightarrow> tache \<Rightarrow> string list" where
  "get_dependances_codes b t = map code (dependances b t)"

text \<open>
  The exceptions that the modelled code can raise. The messages are kept without their
  accents.
\<close>

datatype error =
    ValueError string
  | KeyError string
  | TypeError string
  | ValidationError string
  | OverflowError string
  | DatabaseError string

text \<open>
  What the code calls and does not define: \<open>str.upper\<close> of the interpreter, and
  \<open>Model.save\<close> of the framework, which writes the row of a task into the database or
  raises (a value that a column cannot hold, a constraint of the table). Both are
  parameters of the model.
\<close>

record plateforme =
  str_upper :: "string \<Rightarrow> string"
  model_save :: "base \<Rightarrow> tache \<Rightarrow> error + base"

text \<open>
  \<open>Tache.clean\<close>: the code is put in upper case, and a duration that is truthy (non-zero)
  and \<open>\<le> 0\<close> is rejected.
\<close>

definition clean :: "plateforme \<Rightarrow> tache \<Rightarrow> error + tache" where
  "clean p t =
     (let t1 = (if code t \<noteq> [] then t\<lparr>code := str_upper p (code t)\<rparr> else t)
      in if duree t1 \<noteq> 0 \<and> duree t1 \<le> 0
         then Inl (ValidationError ''La duree doit etre superieure a 0'')
         else Inr t1)"

text \<open>
  \<open>Tache.save\<close>: forces the code to upper case on the object, then lets \<open>Model.save\<close> write
  the row. The result is the exception if any, the object, and the database after the
  call.
\<close>

definition save :: "plateforme \<Rightarrow> base \<Rightarrow> tache \<Rightarrow> error option \<times> tache \<times> base" where
  "save p b t =
     (let t1 = t\<lparr>code := str_upper p (code t)\<rparr>
      in case model_save p b t1 of
           Inl e \<Rightarrow> (Some e, t1, b)
         | Inr b' \<Rightarrow> (None, t1, b'))"


section \<open>Python dictionaries and builtins\<close>

text \<open>
  A \<open>dict\<close> from codes to integers, as an association list in insertion order:
  \<open>d[k] = v\<close> replaces the value in place or appends the key, \<open>d[k]\<close> raises
  \<open>KeyError\<close> on a missing key.
\<close>

type_synonym dict = "(string \<times> int) list"

definition dict_set :: "string \<Rightarrow> int \<Rightarrow> dict \<Rightarrow> dict" where
  "dict_set k v d = AList.update k v d"

definition dict_get :: "dict \<Rightarrow> string \<Rightarrow> error + int" where
  "dict_get d k = (case map_of d k of None \<Rightarrow> Inl (KeyError k) | Some v \<Rightarrow> Inr v)"

definition dict_values :: "dict \<Rightarrow> int list" where
  "dict_values d = map snd d"

text \<open>The generator \<open>d[k] for k in ks\<close>, consumed from left to right.\<close>

fun dict_get_all :: "dict \<Rightarrow> string list \<Rightarrow> error + int list" where
  "dict_get_all d [] = Inr []"
| "dict_get_all d (k # ks) =
     (case dict_get d k of
        Inl e \<Rightarrow> Inl e
      | Inr v \<Rightarrow> (case dict_get_all d ks of Inl e \<Rightarrow> Inl e | Inr vs \<Rightarrow> Inr (v # vs)))"

definition py_max :: "int list \<Rightarrow> error + int" where
  "py_max xs =
     (case xs of
        [] \<Rightarrow> Inl (ValueError ''max() arg is an empty sequence'')
      | x # ys \<Rightarrow> Inr (fold max ys x))"

definition py_min :: "int list \<Rightarrow> error + int" where
  "py_min xs =
     (case xs of
        [] \<Rightarrow> Inl (ValueError ''min() arg is an empty sequence'')
      | x # ys \<Rightarrow> Inr (fold min ys x))"

section \<open>The calculator (pert\_calculator.py)\<close>

record pert_calculator =
  taches :: "tache list"
  dates_debut_tot :: dict
  dates_fin_tot :: dict
  dates_debut_tard :: dict
  dates_fin_tard :: dict

text \<open>
  \<open>__init__\<close>. The attribute \<open>taches_dict\<close> is the comprehension
  \<open>{t.code: t for t in self.taches}\<close>, in which a later task replaces an earlier one with
  the same code; it is only read for the code, the duration and the two relations, which
  the run does not change before it saves, so it is a function of the task list.
\<close>

definition PertCalculator :: "tache list \<Rightarrow> pert_calculator" where
  "PertCalculator ts =
     \<lparr>taches = ts, dates_debut_tot = [], dates_fin_tot = [],
      dates_debut_tard = [], dates_fin_tard = []\<rparr>"

definition taches_dict :: "tache list \<Rightarrow> string \<Rightarrow> tache option" where
  "taches_dict ts = map_of (rev (map (\<lambda>t. (code t, t)) ts))"

text \<open>
  A method of the calculator that fails returns the exception together with the
  calculator as the exception left it.
\<close>

type_synonym echec = "error \<times> pert_calculator"

subsection \<open>Cycle detection\<close>

text \<open>The codes that a traversal can meet: those of the tasks and of the rows.\<close>

definition univers :: "base \<Rightarrow> tache list \<Rightarrow> string set" where
  "univers b ts = set (map code ts) \<union> set (map code (lignes b))"

lemma taches_dict_SomeD: "taches_dict ts c = Some t \<Longrightarrow> t \<in> set ts \<and> code t = c"
  unfolding taches_dict_def by (auto dest!: map_of_SomeD)

lemma finite_univers: "finite (univers b ts)"
  by (simp add: univers_def)

lemma dependances_univers: "set (get_dependances_codes b t) \<subseteq> univers b ts"
  by (auto simp: univers_def get_dependances_codes_def dependances_def)

text \<open>
  The nested function \<open>dfs\<close> of \<open>_has_circular_dependency\<close>, with the two sets it mutates
  passed in and returned, and its \<open>for\<close> loop over the dependencies, of which it reads the
  codes only, as \<open>dfs_deps\<close>. When the
  result is \<open>True\<close> the Python returns at once and leaves the recursion stack as it is.
  \<open>rec_stack.remove\<close> always finds the code: it was added on entry, and a nested call only
  removes the code it was called with, which was not visited before. The interpreter's
  limit on the recursion depth is not modelled.
\<close>

function dfs :: "base \<Rightarrow> tache list \<Rightarrow> string \<Rightarrow> string set \<times> string set \<Rightarrow> bool \<times> string set \<times> string set"
  and dfs_deps :: "base \<Rightarrow> tache list \<Rightarrow> string list \<Rightarrow> string set \<times> string set \<Rightarrow> bool \<times> string set \<times> string set"
where
  "dfs b ts c (visited, rec_stack) =
     (case taches_dict ts c of
        None \<Rightarrow> (False, insert c visited, insert c rec_stack - {c})
      | Some tache \<Rightarrow>
          (let res = dfs_deps b ts (get_dependances_codes b tache)
                       (insert c visited, insert c rec_stack)
           in if fst res then res
              else (False, fst (snd res), snd (snd res) - {c})))"
| "dfs_deps b ts [] (visited, rec_stack) = (False, visited, rec_stack)"
| "dfs_deps b ts (dep # deps) (visited, rec_stack) =
     (if dep \<notin> visited then
        (let res = dfs b ts dep (visited, rec_stack)
         in if fst res then res else dfs_deps b ts deps (snd res))
      else if dep \<in> rec_stack then (True, visited, rec_stack)
      else dfs_deps b ts deps (visited, rec_stack))"
  by pat_completeness auto

text \<open>
  Every nested call of \<open>dfs\<close> starts from a code that is not yet visited and marks it, and
  the codes that can be met are those of the tasks and of the rows.
\<close>

termination
proof -
  have mono:
    "dfs_dfs_deps_dom (Inl (b, ts, c, vr)) \<Longrightarrow> fst vr \<subseteq> fst (snd (dfs b ts c vr))"
    "dfs_dfs_deps_dom (Inr (b, ts, ds, vr)) \<Longrightarrow> fst vr \<subseteq> fst (snd (dfs_deps b ts ds vr))"
    for b ts c vr ds
  proof (induct b ts c vr and b ts ds vr rule: dfs_dfs_deps.pinduct)
    case (1 b ts c visited rec_stack)
    then show ?case
      by (auto simp: dfs.psimps Let_def split: option.splits if_splits)
  next
    case (2 b ts visited rec_stack)
    then show ?case by (simp add: dfs_deps.psimps)
  next
    case (3 b ts dep deps visited rec_stack)
    show ?case
    proof (cases "dep \<notin> visited")
      case True
      obtain f v r where res: "dfs b ts dep (visited, rec_stack) = (f, v, r)"
        by (cases "dfs b ts dep (visited, rec_stack)") auto
      from 3(2)[OF True] res have a: "visited \<subseteq> v" by simp
      show ?thesis
      proof (cases f)
        case True
        with res a \<open>dep \<notin> visited\<close> 3(1) show ?thesis
          by (simp add: dfs_deps.psimps)
      next
        case False
        from 3(3)[OF \<open>dep \<notin> visited\<close> res[symmetric]] False res
        have "v \<subseteq> fst (snd (dfs_deps b ts deps (v, r)))" by simp
        with res a False \<open>dep \<notin> visited\<close> 3(1) show ?thesis
          by (simp add: dfs_deps.psimps)
      qed
    next
      case False
      with 3 show ?thesis
        by (auto simp: dfs_deps.psimps)
    qed
  qed
  show ?thesis
  proof (relation "inv_image (less_than <*lex*> less_than)
      (\<lambda>x. case x of
          Inl (b, ts, c, vr) \<Rightarrow> (2 * card (univers b ts - insert c (fst vr)) + 1, 0)
        | Inr (b, ts, ds, vr) \<Rightarrow> (2 * card ((univers b ts \<union> set ds) - fst vr), length ds))",
      goal_cases)
    case 1
    then show ?case by (auto intro!: wf_inv_image)
  next
    case (2 b ts c visited rec_stack x2)
    have "set (get_dependances_codes b x2) \<subseteq> univers b ts"
      by (rule dependances_univers)
    then have "univers b ts \<union> set (get_dependances_codes b x2) = univers b ts" by blast
    then show ?case by simp
  next
    case (3 b ts dep deps visited rec_stack)
    have "univers b ts - insert dep visited \<subset> (univers b ts \<union> set (dep # deps)) - visited"
      using 3 by auto
    then have "card (univers b ts - insert dep visited)
        < card ((univers b ts \<union> set (dep # deps)) - visited)"
      by (intro psubset_card_mono) (simp_all add: finite_univers)
    then show ?case by simp
  next
    case (4 b ts dep deps visited rec_stack x)
    from mono(1)[OF 4(4)] 4(2)
    have "visited \<subseteq> fst (snd x)" by simp
    then have "(univers b ts \<union> set deps) - fst (snd x)
        \<subseteq> (univers b ts \<union> set (dep # deps)) - visited"
      by auto
    then have "card ((univers b ts \<union> set deps) - fst (snd x))
        \<le> card ((univers b ts \<union> set (dep # deps)) - visited)"
      by (intro card_mono) (simp_all add: finite_univers)
    then show ?case by (cases "snd x") auto
  next
    case (5 b ts dep deps visited rec_stack)
    have "(univers b ts \<union> set deps) - visited \<subseteq> (univers b ts \<union> set (dep # deps)) - visited"
      by auto
    then have "card ((univers b ts \<union> set deps) - visited)
        \<le> card ((univers b ts \<union> set (dep # deps)) - visited)"
      by (intro card_mono) (simp_all add: finite_univers)
    then show ?case by auto
  qed
qed

text \<open>The loop \<open>for tache in self.taches\<close> that starts a traversal from each unvisited task.\<close>

fun dfs_taches :: "base \<Rightarrow> tache list \<Rightarrow> tache list \<Rightarrow> string set \<times> string set \<Rightarrow> bool" where
  "dfs_taches b ts [] (visited, rec_stack) = False"
| "dfs_taches b ts (t # rest) (visited, rec_stack) =
     (if code t \<notin> visited then
        (let res = dfs b ts (code t) (visited, rec_stack)
         in if fst res then True else dfs_taches b ts rest (snd res))
      else dfs_taches b ts rest (visited, rec_stack))"

definition has_circular_dependency :: "base \<Rightarrow> tache list \<Rightarrow> bool" where
  "has_circular_dependency b ts = dfs_taches b ts ts ({}, {})"

subsection \<open>Topological sort\<close>

text \<open>
  \<open>in_degree\<close> is a \<open>defaultdict(int)\<close>: a missing key reads as 0, so it is a total function
  and the guard that stores 0 for a new code changes nothing. The inner loop adds 1 for
  each dependency of the task.
\<close>

definition in_degree_init :: "base \<Rightarrow> tache list \<Rightarrow> string \<Rightarrow> int" where
  "in_degree_init b ts =
     fold (\<lambda>t deg. fold (\<lambda>dep deg'. deg'(code t := deg' (code t) + 1)) (dependances b t) deg)
       ts (\<lambda>_. 0)"

text \<open>The loop over the successors of the task just emitted.\<close>

fun decrementer :: "tache list \<Rightarrow> (string \<Rightarrow> int) \<times> string list \<Rightarrow> (string \<Rightarrow> int) \<times> string list" where
  "decrementer [] (deg, queue) = (deg, queue)"
| "decrementer (s # ss) (deg, queue) =
     (let deg' = deg(code s := deg (code s) - 1)
      in decrementer ss (deg', if deg' (code s) = 0 then queue @ [code s] else queue))"

lemma decrementer_mesure:
  "set (map code ss) \<subseteq> C \<Longrightarrow> finite C \<Longrightarrow>
   length (snd (decrementer ss (deg, q))) + card {c \<in> C. 0 < fst (decrementer ss (deg, q)) c}
     \<le> length q + card {c \<in> C. 0 < deg c}"
proof (induction ss arbitrary: deg q)
  case Nil
  then show ?case by simp
next
  case (Cons s ss)
  let ?deg = "deg(code s := deg (code s) - 1)"
  let ?q = "if ?deg (code s) = 0 then q @ [code s] else q"
  from Cons.prems have sub: "set (map code ss) \<subseteq> C" and inC: "code s \<in> C" by auto
  have step: "length ?q + card {c \<in> C. 0 < ?deg c} \<le> length q + card {c \<in> C. 0 < deg c}"
  proof (cases "?deg (code s) = 0")
    case True
    then have eq: "{c \<in> C. 0 < ?deg c} = {c \<in> C. 0 < deg c} - {code s}" by auto
    have "code s \<in> {c \<in> C. 0 < deg c}" using True inC by auto
    moreover have "finite {c \<in> C. 0 < deg c}" using Cons.prems(2) by simp
    ultimately have "card ({c \<in> C. 0 < deg c} - {code s}) + 1 = card {c \<in> C. 0 < deg c}"
      by (metis One_nat_def Suc_eq_plus1 card_Suc_Diff1)
    with True eq show ?thesis by simp
  next
    case False
    have "{c \<in> C. 0 < ?deg c} \<subseteq> {c \<in> C. 0 < deg c}" by auto
    then have "card {c \<in> C. 0 < ?deg c} \<le> card {c \<in> C. 0 < deg c}"
      using Cons.prems(2) by (intro card_mono) simp_all
    with False show ?thesis by simp
  qed
  have unfold: "decrementer (s # ss) (deg, q) = decrementer ss (?deg, ?q)"
    by (simp add: Let_def)
  from Cons.IH[OF sub Cons.prems(2), of ?deg ?q] step
  show ?case unfolding unfold by linarith
qed

text \<open>The \<open>while queue\<close> loop, with \<open>popleft\<close> as the head of the list.\<close>

function bfs :: "base \<Rightarrow> tache list \<Rightarrow> (string \<Rightarrow> int) \<Rightarrow> string list \<Rightarrow> string list \<Rightarrow> error + string list" where
  "bfs b ts deg [] ordre = Inr ordre"
| "bfs b ts deg (c # queue) ordre =
     (case taches_dict ts c of
        None \<Rightarrow> Inl (KeyError c)
      | Some tache \<Rightarrow>
          (let st = decrementer (successeurs b tache) (deg, queue)
           in bfs b ts (fst st) (snd st) (ordre @ [c])))"
  by pat_completeness auto

termination
proof (relation "measure (\<lambda>(b, ts, deg, q, ordre).
    length q + card {c \<in> set (map code (lignes b)). 0 < deg c})", goal_cases)
  case 1
  then show ?case by simp
next
  case (2 b ts deg c queue ordre tache st)
  have "set (map code (successeurs b tache)) \<subseteq> set (map code (lignes b))"
    by (auto simp: successeurs_def)
  from decrementer_mesure[OF this, of deg queue] 2
  show ?case by simp
qed

definition tri_topologique :: "base \<Rightarrow> tache list \<Rightarrow> error + string list" where
  "tri_topologique b ts =
     (let in_degree = in_degree_init b ts;
          queue = map code (filter (\<lambda>t. in_degree (code t) = 0) ts)
      in bfs b ts in_degree queue [])"

subsection \<open>Forward pass\<close>

definition init_dates_tot :: "pert_calculator \<Rightarrow> pert_calculator" where
  "init_dates_tot st =
     fold (\<lambda>t s. s\<lparr>dates_debut_tot := dict_set (code t) 0 (dates_debut_tot s),
                   dates_fin_tot := dict_set (code t) 0 (dates_fin_tot s)\<rparr>)
       (taches st) st"

fun dates_tot_boucle :: "base \<Rightarrow> string list \<Rightarrow> pert_calculator \<Rightarrow> echec + pert_calculator" where
  "dates_tot_boucle b [] st = Inr st"
| "dates_tot_boucle b (tache_code # ordre) st =
     (case taches_dict (taches st) tache_code of
        None \<Rightarrow> Inl (KeyError tache_code, st)
      | Some tache \<Rightarrow>
          (case (if dependances b tache \<noteq> []
                 then (case dict_get_all (dates_fin_tot st) (get_dependances_codes b tache) of
                         Inl e \<Rightarrow> Inl e
                       | Inr fins \<Rightarrow> py_max fins)
                 else Inr 0) of
             Inl e \<Rightarrow> Inl (e, st)
           | Inr debut \<Rightarrow>
               (let st1 = st\<lparr>dates_debut_tot := dict_set tache_code debut (dates_debut_tot st)\<rparr>
                in case dict_get (dates_debut_tot st1) tache_code of
                     Inl e \<Rightarrow> Inl (e, st1)
                   | Inr d \<Rightarrow>
                       dates_tot_boucle b ordre
                         (st1\<lparr>dates_fin_tot :=
                                 dict_set tache_code (d + duree tache) (dates_fin_tot st1)\<rparr>))))"

definition calculer_dates_tot :: "base \<Rightarrow> pert_calculator \<Rightarrow> echec + pert_calculator" where
  "calculer_dates_tot b st =
     (let st0 = init_dates_tot st
      in case tri_topologique b (taches st0) of
           Inl e \<Rightarrow> Inl (e, st0)
         | Inr ordre \<Rightarrow> dates_tot_boucle b ordre st0)"

subsection \<open>Backward pass\<close>

definition init_dates_tard :: "int \<Rightarrow> pert_calculator \<Rightarrow> pert_calculator" where
  "init_dates_tard date_fin_projet st =
     fold (\<lambda>t s. s\<lparr>dates_fin_tard := dict_set (code t) date_fin_projet (dates_fin_tard s),
                   dates_debut_tard := dict_set (code t) date_fin_projet (dates_debut_tard s)\<rparr>)
       (taches st) st"

text \<open>The loop over the final tasks, those for which \<open>successeurs.exists()\<close> is false.\<close>

fun taches_finales :: "base \<Rightarrow> tache list \<Rightarrow> pert_calculator \<Rightarrow> echec + pert_calculator" where
  "taches_finales b [] st = Inr st"
| "taches_finales b (tache # rest) st =
     (if successeurs b tache = [] then
        (case dict_get (dates_fin_tot st) (code tache) of
           Inl e \<Rightarrow> Inl (e, st)
         | Inr f \<Rightarrow>
             (let st1 = st\<lparr>dates_fin_tard := dict_set (code tache) f (dates_fin_tard st)\<rparr>
              in case dict_get (dates_fin_tard st1) (code tache) of
                   Inl e \<Rightarrow> Inl (e, st1)
                 | Inr ft \<Rightarrow>
                     taches_finales b rest
                       (st1\<lparr>dates_debut_tard :=
                               dict_set (code tache) (ft - duree tache) (dates_debut_tard st1)\<rparr>)))
      else taches_finales b rest st)"

fun dates_tard_boucle :: "base \<Rightarrow> string list \<Rightarrow> pert_calculator \<Rightarrow> echec + pert_calculator" where
  "dates_tard_boucle b [] st = Inr st"
| "dates_tard_boucle b (tache_code # ordre) st =
     (case taches_dict (taches st) tache_code of
        None \<Rightarrow> Inl (KeyError tache_code, st)
      | Some tache \<Rightarrow>
          (case (if successeurs b tache \<noteq> []
                 then (case dict_get_all (dates_debut_tard st)
                              (map code (successeurs b tache)) of
                         Inl e \<Rightarrow> Inl e
                       | Inr debuts \<Rightarrow>
                           (case py_min debuts of
                              Inl e \<Rightarrow> Inl e
                            | Inr m \<Rightarrow>
                                Inr (st\<lparr>dates_fin_tard :=
                                          dict_set tache_code m (dates_fin_tard st)\<rparr>)))
                 else Inr st) of
             Inl e \<Rightarrow> Inl (e, st)
           | Inr st1 \<Rightarrow>
               (case dict_get (dates_fin_tard st1) tache_code of
                  Inl e \<Rightarrow> Inl (e, st1)
                | Inr ft \<Rightarrow>
                    dates_tard_boucle b ordre
                      (st1\<lparr>dates_debut_tard :=
                              dict_set tache_code (ft - duree tache) (dates_debut_tard st1)\<rparr>))))"

definition calculer_dates_tard :: "base \<Rightarrow> pert_calculator \<Rightarrow> echec + pert_calculator" where
  "calculer_dates_tard b st =
     (case py_max (dict_values (dates_fin_tot st)) of
        Inl e \<Rightarrow> Inl (e, st)
      | Inr date_fin_projet \<Rightarrow>
          (case taches_finales b (taches st) (init_dates_tard date_fin_projet st) of
             Inl x \<Rightarrow> Inl x
           | Inr st2 \<Rightarrow>
               (case tri_topologique b (taches st2) of
                  Inl e \<Rightarrow> Inl (e, st2)
                | Inr ordre \<Rightarrow> dates_tard_boucle b (rev ordre) st2)))"

subsection \<open>Slack\<close>

text \<open>
  The body of the loop of \<open>_calculer_marges\<close> for one task. The two slack attributes are
  assigned on the task object itself, so an exception leaves the task with what was
  assigned before it: the result is the task as it then stands, with the exception if any.
\<close>

definition marges_tache :: "base \<Rightarrow> pert_calculator \<Rightarrow> tache \<Rightarrow> error option \<times> tache" where
  "marges_tache b st tache =
     (case dict_get (dates_debut_tard st) (code tache) of
        Inl e \<Rightarrow> (Some e, tache)
      | Inr dtard \<Rightarrow>
     (case dict_get (dates_debut_tot st) (code tache) of
        Inl e \<Rightarrow> (Some e, tache)
      | Inr dtot \<Rightarrow>
          (let t1 = tache\<lparr>marge_totale := Some (dtard - dtot)\<rparr>
           in if successeurs b tache \<noteq> [] then
                (case dict_get_all (dates_debut_tot st)
                        (map code (successeurs b tache)) of
                   Inl e \<Rightarrow> (Some e, t1)
                 | Inr debuts \<Rightarrow>
                (case py_min debuts of
                   Inl e \<Rightarrow> (Some e, t1)
                 | Inr min_debut_successeurs \<Rightarrow>
                (case dict_get (dates_fin_tot st) (code tache) of
                   Inl e \<Rightarrow> (Some e, t1)
                 | Inr ftot \<Rightarrow>
                     (None, t1\<lparr>marge_libre := Some (min_debut_successeurs - ftot)\<rparr>))))
              else (None, t1\<lparr>marge_libre := marge_totale t1\<rparr>))))"

fun marges_boucle :: "base \<Rightarrow> pert_calculator \<Rightarrow> tache list \<Rightarrow> error option \<times> tache list" where
  "marges_boucle b st [] = (None, [])"
| "marges_boucle b st (tache # rest) =
     (case marges_tache b st tache of
        (Some e, t') \<Rightarrow> (Some e, t' # rest)
      | (None, t') \<Rightarrow>
          (case marges_boucle b st rest of (e, rest') \<Rightarrow> (e, t' # rest')))"

definition calculer_marges :: "base \<Rightarrow> pert_calculator \<Rightarrow> error option \<times> pert_calculator" where
  "calculer_marges b st =
     (case marges_boucle b st (taches st) of (e, ts') \<Rightarrow> (e, st\<lparr>taches := ts'\<rparr>))"

subsection \<open>Saving the results\<close>

text \<open>
  The body of the loop of \<open>_sauvegarder_resultats\<close> for one task: four assignments on the
  object, each after a lookup that can raise, then \<open>save\<close>.
\<close>

definition sauvegarder_tache ::
  "plateforme \<Rightarrow> base \<Rightarrow> pert_calculator \<Rightarrow> tache \<Rightarrow> error option \<times> tache \<times> base" where
  "sauvegarder_tache p b st tache =
     (case dict_get (dates_debut_tot st) (code tache) of
        Inl e \<Rightarrow> (Some e, tache, b)
      | Inr v1 \<Rightarrow>
     (let t1 = tache\<lparr>date_debut_tot := Some v1\<rparr>
      in case dict_get (dates_fin_tot st) (code t1) of
        Inl e \<Rightarrow> (Some e, t1, b)
      | Inr v2 \<Rightarrow>
     (let t2 = t1\<lparr>date_fin_tot := Some v2\<rparr>
      in case dict_get (dates_debut_tard st) (code t2) of
        Inl e \<Rightarrow> (Some e, t2, b)
      | Inr v3 \<Rightarrow>
     (let t3 = t2\<lparr>date_debut_tard := Some v3\<rparr>
      in case dict_get (dates_fin_tard st) (code t3) of
        Inl e \<Rightarrow> (Some e, t3, b)
      | Inr v4 \<Rightarrow> save p b (t3\<lparr>date_fin_tard := Some v4\<rparr>)))))"

fun sauvegarder_boucle ::
  "plateforme \<Rightarrow> base \<Rightarrow> pert_calculator \<Rightarrow> tache list \<Rightarrow> error option \<times> tache list \<times> base" where
  "sauvegarder_boucle p b st [] = (None, [], b)"
| "sauvegarder_boucle p b st (tache # rest) =
     (case sauvegarder_tache p b st tache of
        (Some e, t', b') \<Rightarrow> (Some e, t' # rest, b')
      | (None, t', b') \<Rightarrow>
          (case sauvegarder_boucle p b' st rest of (e, rest', b'') \<Rightarrow> (e, t' # rest', b'')))"

definition sauvegarder_resultats ::
  "plateforme \<Rightarrow> base \<Rightarrow> pert_calculator \<Rightarrow> error option \<times> pert_calculator \<times> base" where
  "sauvegarder_resultats p b st =
     (case sauvegarder_boucle p b st (taches st) of (e, ts', b') \<Rightarrow> (e, st\<lparr>taches := ts'\<rparr>, b'))"

subsection \<open>The entry point\<close>

text \<open>
  The body of the \<open>try\<close> block of \<open>calculer\<close>: either the exception that leaves it, or
  nothing; in both cases with the calculator and the database as the block left them.
\<close>

definition calculer_try ::
  "plateforme \<Rightarrow> base \<Rightarrow> pert_calculator \<Rightarrow> error option \<times> pert_calculator \<times> base" where
  "calculer_try p b st =
     (if has_circular_dependency b (taches st)
      then (Some (ValueError ''Dependances circulaires detectees dans le projet !''), st, b)
      else
        (case calculer_dates_tot b st of
           Inl (e, st') \<Rightarrow> (Some e, st', b)
         | Inr st1 \<Rightarrow>
        (case calculer_dates_tard b st1 of
           Inl (e, st') \<Rightarrow> (Some e, st', b)
         | Inr st2 \<Rightarrow>
        (case calculer_marges b st2 of
           (Some e, st3) \<Rightarrow> (Some e, st3, b)
         | (None, st3) \<Rightarrow> sauvegarder_resultats p b st3))))"

text \<open>
  \<open>calculer\<close>: \<open>True\<close> at once on an empty list; otherwise the \<open>except Exception\<close> clause
  turns any exception of the block into the return value \<open>False\<close> (the message it prints
  is not modelled). The result is the returned flag, the calculator and the database
  after the call.
\<close>

definition calculer :: "plateforme \<Rightarrow> base \<Rightarrow> pert_calculator \<Rightarrow> bool \<times> pert_calculator \<times> base" where
  "calculer p b st =
     (if taches st = [] then (True, st, b)
      else (case calculer_try p b st of
              (Some e, st', b') \<Rightarrow> (False, st', b')
            | (None, st', b') \<Rightarrow> (True, st', b')))"

text \<open>
  \<open>get_chemin_critique\<close>. \<open>sorted\<close> is stable; it compares the keys as soon as there are
  two elements, and a key that is \<open>None\<close> then raises \<open>TypeError\<close>.
\<close>

definition get_chemin_critique :: "pert_calculator \<Rightarrow> error + tache list" where
  "get_chemin_critique st =
     (let taches_critiques = filter (\<lambda>t. marge_totale t = Some 0) (taches st)
      in if 2 \<le> length taches_critiques \<and> (\<exists>t \<in> set taches_critiques. date_debut_tot t = None)
         then Inl (TypeError ''not supported between instances of NoneType'')
         else Inr (sort_key (\<lambda>t. case date_debut_tot t of None \<Rightarrow> 0 | Some d \<Rightarrow> d)
                     taches_critiques))"

section \<open>Well-formed collections\<close>

text \<open>
  The relation from the code of a dependency to the code of its dependent, for the tasks
  handed to the calculator; it is the graph that the calculator walks, since it goes from
  a row to a task through the code. A collection is a list of rows of the database with
  unique codes (\<open>unique_together\<close> within a project), in a table with a primary key. It is
  closed when every row on which one of its tasks depends, and every row that depends on
  one of its tasks, is in it: the form only offers the tasks of the project as
  dependencies, the administration site offers every task.
\<close>

definition dep_rel :: "base \<Rightarrow> tache list \<Rightarrow> (string \<times> string) set" where
  "dep_rel b ts = (\<Union>t \<in> set ts. (\<lambda>d. (d, code t)) ` set (get_dependances_codes b t))"

definition acyclique :: "base \<Rightarrow> tache list \<Rightarrow> bool" where
  "acyclique b ts = acyclic (dep_rel b ts)"

definition collection :: "base \<Rightarrow> tache list \<Rightarrow> bool" where
  "collection b ts \<longleftrightarrow>
     distinct (map pk (lignes b)) \<and> set ts \<subseteq> set (lignes b) \<and> distinct (map code ts)"

definition dependances_internes :: "base \<Rightarrow> tache list \<Rightarrow> bool" where
  "dependances_internes b ts \<longleftrightarrow> (\<forall>t \<in> set ts. set (dependances b t) \<subseteq> set ts)"

definition successeurs_internes :: "base \<Rightarrow> tache list \<Rightarrow> bool" where
  "successeurs_internes b ts \<longleftrightarrow> (\<forall>t \<in> set ts. set (successeurs b t) \<subseteq> set ts)"

definition fermee :: "base \<Rightarrow> tache list \<Rightarrow> bool" where
  "fermee b ts \<longleftrightarrow> dependances_internes b ts \<and> successeurs_internes b ts"

lemma collection_codes: "collection b ts \<Longrightarrow> distinct (map code ts)"
  by (simp add: collection_def)

lemma collection_ligne: "collection b ts \<Longrightarrow> t \<in> set ts \<Longrightarrow> t \<in> set (lignes b)"
  by (auto simp: collection_def)

lemma fermeeD:
  assumes "fermee b ts" and "t \<in> set ts"
  shows "set (dependances b t) \<subseteq> set ts" and "set (successeurs b t) \<subseteq> set ts"
  using assms unfolding fermee_def dependances_internes_def successeurs_internes_def by blast+

lemma successeur_dependance:
  "t \<in> set (lignes b) \<Longrightarrow> s \<in> set (successeurs b t) \<Longrightarrow> t \<in> set (dependances b s)"
  by (simp add: successeurs_def dependances_def)

lemma dependance_successeur:
  "s \<in> set (lignes b) \<Longrightarrow> t \<in> set (dependances b s) \<Longrightarrow> s \<in> set (successeurs b t)"
  by (simp add: successeurs_def dependances_def)

lemma codes_distincts_dans:
  assumes "distinct (map code ts)" and "distinct xs" and "set xs \<subseteq> set ts"
  shows "distinct (map code xs)"
proof -
  from assms(1) have "inj_on code (set ts)" by (simp add: distinct_map)
  then have "inj_on code (set xs)" using assms(3) by (rule inj_on_subset)
  with assms(2) show ?thesis by (simp add: distinct_map)
qed

lemma lignes_distinctes: "collection b ts \<Longrightarrow> distinct (lignes b)"
  unfolding collection_def by (auto simp: distinct_map)

lemma dependances_codes_distincts:
  assumes "collection b ts" and "fermee b ts" and "t \<in> set ts"
  shows "distinct (get_dependances_codes b t)"
  unfolding get_dependances_codes_def
proof (rule codes_distincts_dans[OF collection_codes[OF assms(1)]])
  show "distinct (dependances b t)"
    unfolding dependances_def using lignes_distinctes[OF assms(1)] by simp
  show "set (dependances b t) \<subseteq> set ts" using fermeeD(1)[OF assms(2,3)] .
qed

lemma successeurs_codes_distincts:
  assumes "collection b ts" and "fermee b ts" and "t \<in> set ts"
  shows "distinct (map code (successeurs b t))"
proof (rule codes_distincts_dans[OF collection_codes[OF assms(1)]])
  show "distinct (successeurs b t)"
    unfolding successeurs_def using lignes_distinctes[OF assms(1)] by simp
  show "set (successeurs b t) \<subseteq> set ts" using fermeeD(2)[OF assms(2,3)] .
qed

text \<open>
  The relation between the rows of the collection themselves. A cycle among them is a
  cycle of the relation between their codes.
\<close>

definition dep_lignes :: "base \<Rightarrow> tache list \<Rightarrow> (tache \<times> tache) set" where
  "dep_lignes b ts = {(d, t). t \<in> set ts \<and> d \<in> set ts \<and> d \<in> set (dependances b t)}"

lemma cycle_de_lignes:
  assumes "\<not> acyclic (dep_lignes b ts)"
  shows "\<not> acyclique b ts"
proof -
  have arc: "(code d, code t) \<in> dep_rel b ts" if "(d, t) \<in> dep_lignes b ts" for d t
    using that unfolding dep_lignes_def dep_rel_def get_dependances_codes_def by auto
  have chemin: "(code x, code y) \<in> (dep_rel b ts)\<^sup>+" if "(x, y) \<in> (dep_lignes b ts)\<^sup>+" for x y
    using that
  proof (induction rule: trancl_induct)
    case (base y)
    then show ?case using arc by blast
  next
    case (step y z)
    from step.IH arc[OF step.hyps(2)] show ?case by (rule trancl_into_trancl)
  qed
  from assms obtain x where "(x, x) \<in> (dep_lignes b ts)\<^sup>+" unfolding acyclic_def by blast
  from chemin[OF this] show ?thesis unfolding acyclique_def acyclic_def by blast
qed

text \<open>
  The tasks of a project form a closed collection when the table has a primary key, a
  code is used once in a project (\<open>unique_together\<close>) and no task depends on a task of
  another project, which is what the form \<open>TacheForm\<close> allows to enter.
\<close>

definition unique_together :: "base \<Rightarrow> bool" where
  "unique_together b \<longleftrightarrow>
     (\<forall>r \<in> set (lignes b). \<forall>s \<in> set (lignes b).
        projet r = projet s \<and> code r = code s \<longrightarrow> r = s)"

definition liens_internes :: "base \<Rightarrow> bool" where
  "liens_internes b \<longleftrightarrow>
     (\<forall>r \<in> set (lignes b). \<forall>s \<in> set (lignes b).
        (pk r, pk s) \<in> set (liens b) \<longrightarrow> projet r = projet s)"

lemma collection_du_projet:
  assumes "distinct (map pk (lignes b))" and "unique_together b" and "liens_internes b"
  shows "collection b (taches_du_projet b pr)" and "fermee b (taches_du_projet b pr)"
proof -
  have d: "distinct (lignes b)" using assms(1) by (auto simp: distinct_map)
  have "inj_on code (set (taches_du_projet b pr))"
    using assms(2) unfolding unique_together_def taches_du_projet_def inj_on_def by auto
  moreover have "distinct (taches_du_projet b pr)"
    using d by (simp add: taches_du_projet_def)
  ultimately have "distinct (map code (taches_du_projet b pr))" by (simp add: distinct_map)
  with assms(1) show "collection b (taches_du_projet b pr)"
    by (auto simp: collection_def taches_du_projet_def)
  show "fermee b (taches_du_projet b pr)"
    using assms(3)
    unfolding fermee_def dependances_internes_def successeurs_internes_def liens_internes_def
      taches_du_projet_def dependances_def successeurs_def
    by auto
qed

section \<open>The topological sort emits tasks after their dependencies\<close>

text \<open>
  \<open>deps_of\<close> reads the dependencies of a code through \<open>taches_dict\<close>, as the calculator
  does; \<open>topo\<close> says that every code of an order comes after the dependencies of its task.
\<close>

definition deps_of :: "base \<Rightarrow> tache list \<Rightarrow> string \<Rightarrow> string set" where
  "deps_of b ts c = (case taches_dict ts c of None \<Rightarrow> {} | Some t \<Rightarrow> set (get_dependances_codes b t))"

definition topo :: "base \<Rightarrow> tache list \<Rightarrow> string list \<Rightarrow> bool" where
  "topo b ts ordre = (\<forall>i < length ordre. deps_of b ts (ordre ! i) \<subseteq> set (take i ordre))"

lemma taches_dict_distinct:
  "distinct (map code ts) \<Longrightarrow> t \<in> set ts \<Longrightarrow> taches_dict ts (code t) = Some t"
  unfolding taches_dict_def
  by (rule map_of_is_SomeI) (auto simp: rev_map[symmetric] comp_def)

lemma taches_dict_None: "c \<notin> set (map code ts) \<Longrightarrow> taches_dict ts c = None"
  unfolding taches_dict_def by (auto simp: map_of_eq_None_iff image_iff)

lemma taches_dict_in_codes:
  "c \<in> set (map code ts) \<Longrightarrow> \<exists>t. taches_dict ts c = Some t"
  using taches_dict_None[of c ts]
  unfolding taches_dict_def
  by (cases "map_of (rev (map (\<lambda>t. (code t, t)) ts)) c") (auto simp: map_of_eq_None_iff image_iff)

lemma deps_of_code:
  "distinct (map code ts) \<Longrightarrow> t \<in> set ts \<Longrightarrow> deps_of b ts (code t) = set (get_dependances_codes b t)"
  by (simp add: deps_of_def taches_dict_distinct)

lemma finite_deps_of: "finite (deps_of b ts c)"
  by (simp add: deps_of_def split: option.splits)

lemma fold_incr:
  "fold (\<lambda>dep deg'. deg'(c := deg' c + 1)) ds deg = deg(c := deg c + int (length ds))"
  by (induction ds arbitrary: deg) (auto simp: fun_eq_iff)

lemma in_degree_step:
  "(\<lambda>t deg. fold (\<lambda>dep deg'. deg'(code t := deg' (code t) + 1)) (dependances b t) deg)
     = (\<lambda>t deg. deg(code t := deg (code t) + int (length (get_dependances_codes b t))))"
  by (rule ext, rule ext) (simp add: fold_incr get_dependances_codes_def)

lemma in_degree_fold:
  "distinct (map code ts) \<Longrightarrow>
   fold (\<lambda>t deg. deg(code t := deg (code t) + int (length (get_dependances_codes b t)))) ts deg0 c
     = (case taches_dict ts c of None \<Rightarrow> deg0 c | Some t \<Rightarrow> deg0 c + int (length (get_dependances_codes b t)))"
proof (induction ts arbitrary: deg0)
  case Nil
  then show ?case by (simp add: taches_dict_def)
next
  case (Cons t ts)
  from Cons.prems have d: "distinct (map code ts)" and n: "code t \<notin> set (map code ts)" by auto
  show ?case
  proof (cases "c = code t")
    case True
    with n have "taches_dict ts c = None" by (simp add: taches_dict_None)
    moreover have "taches_dict (t # ts) c = Some t"
      using taches_dict_distinct[OF Cons.prems, of t] True by simp
    ultimately show ?thesis using Cons.IH[OF d] True by simp
  next
    case False
    then have "taches_dict (t # ts) c = taches_dict ts c"
      by (simp add: taches_dict_def map_add_def split: option.split)
    then show ?thesis using Cons.IH[OF d] False by simp
  qed
qed

lemma in_degree_init_code:
  "distinct (map code ts) \<Longrightarrow> t \<in> set ts \<Longrightarrow>
   in_degree_init b ts (code t) = int (length (get_dependances_codes b t))"
  by (simp add: in_degree_init_def in_degree_step in_degree_fold taches_dict_distinct)

lemma decrementer_distinct:
  "distinct (map code ss) \<Longrightarrow>
   decrementer ss (deg, q) =
     (\<lambda>x. if x \<in> code ` set ss then deg x - 1 else deg x,
      q @ map code (filter (\<lambda>s. deg (code s) = 1) ss))"
proof (induction ss arbitrary: deg q)
  case Nil
  then show ?case by simp
next
  case (Cons s ss)
  from Cons.prems have d: "distinct (map code ss)" and n: "\<forall>x \<in> set ss. code x \<noteq> code s" by (auto simp: image_iff)
  let ?deg = "deg(code s := deg (code s) - 1)"
  let ?q = "if ?deg (code s) = 0 then q @ [code s] else q"
  have f: "filter (\<lambda>s'. ?deg (code s') = 1) ss = filter (\<lambda>s'. deg (code s') = 1) ss"
    using n by (intro filter_cong) auto
  have IH': "decrementer ss (?deg, ?q) =
     (\<lambda>x. if x \<in> code ` set ss then ?deg x - 1 else ?deg x,
      ?q @ map code (filter (\<lambda>s'. deg (code s') = 1) ss))"
    using Cons.IH[OF d, of ?deg ?q] unfolding f .
  have "decrementer (s # ss) (deg, q) = decrementer ss (?deg, ?q)"
    by (simp add: Let_def)
  also note IH'
  finally show ?case using n by (auto simp: fun_eq_iff Let_def)
qed

definition bfs_inv :: "base \<Rightarrow> tache list \<Rightarrow> (string \<Rightarrow> int) \<Rightarrow> string list \<Rightarrow> string list \<Rightarrow> bool" where
  "bfs_inv b ts deg q ordre \<longleftrightarrow>
     distinct (ordre @ q) \<and> set (ordre @ q) \<subseteq> set (map code ts) \<and>
     (\<forall>c \<in> set (map code ts). deg c = int (card (deps_of b ts c - set ordre))) \<and>
     (\<forall>c \<in> set (map code ts). c \<in> set (ordre @ q) \<longleftrightarrow> deg c = 0) \<and>
     topo b ts ordre"

lemma succ_codes:
  assumes co: "collection b ts" and fe: "fermee b ts"
    and t: "t \<in> set ts" and x: "x \<in> set (map code ts)"
  shows "x \<in> code ` set (successeurs b t) \<longleftrightarrow> code t \<in> deps_of b ts x"
proof -
  from co have dc: "distinct (map code ts)" by (rule collection_codes)
  from x obtain s where s: "s \<in> set ts" "x = code s" by auto
  have inj: "inj_on code (set ts)" using dc by (simp add: distinct_map)
  have "x \<in> code ` set (successeurs b t) \<longleftrightarrow> code t \<in> set (get_dependances_codes b s)"
  proof
    assume "x \<in> code ` set (successeurs b t)"
    then obtain s' where s': "s' \<in> set (successeurs b t)" "code s' = x" by auto
    from fermeeD(2)[OF fe t] s'(1) have "s' \<in> set ts" by blast
    with s s'(2) inj have "s' = s" by (auto dest: inj_onD)
    with s'(1) have "s \<in> set (successeurs b t)" by simp
    from successeur_dependance[OF collection_ligne[OF co t] this]
    show "code t \<in> set (get_dependances_codes b s)"
      by (auto simp: get_dependances_codes_def)
  next
    assume "code t \<in> set (get_dependances_codes b s)"
    then obtain d where d: "d \<in> set (dependances b s)" "code d = code t"
      by (auto simp: get_dependances_codes_def)
    from fermeeD(1)[OF fe s(1)] d(1) have "d \<in> set ts" by blast
    with t d(2) inj have "d = t" by (auto dest: inj_onD)
    with d(1) have "t \<in> set (dependances b s)" by simp
    from dependance_successeur[OF collection_ligne[OF co s(1)] this] s(2)
    show "x \<in> code ` set (successeurs b t)" by auto
  qed
  with s dc show ?thesis by (simp add: deps_of_code)
qed

lemma topo_snoc:
  "topo b ts ordre \<Longrightarrow> deps_of b ts c \<subseteq> set ordre \<Longrightarrow> topo b ts (ordre @ [c])"
  unfolding topo_def by (auto simp: nth_append less_Suc_eq)

lemma bfs_inv_step:
  assumes co: "collection b ts" and fe: "fermee b ts"
    and inv: "bfs_inv b ts deg (c # queue) ordre"
    and td: "taches_dict ts c = Some t"
  shows "bfs_inv b ts (fst (decrementer (successeurs b t) (deg, queue)))
           (snd (decrementer (successeurs b t) (deg, queue))) (ordre @ [c])"
proof -
  let ?C = "set (map code ts)"
  let ?S = "code ` set (successeurs b t)"
  let ?new = "map code (filter (\<lambda>s. deg (code s) = 1) (successeurs b t))"
  let ?deg = "\<lambda>x. if x \<in> ?S then deg x - 1 else deg x"
  from co have dc: "distinct (map code ts)" by (rule collection_codes)
  from td have t: "t \<in> set ts" "code t = c" using taches_dict_SomeD by auto
  have ds: "distinct (map code (successeurs b t))"
    using successeurs_codes_distincts[OF co fe t(1)] .
  have dec: "decrementer (successeurs b t) (deg, queue) = (?deg, queue @ ?new)"
    using decrementer_distinct[OF ds] .
  from inv have i1: "distinct (ordre @ c # queue)"
    and i2: "set (ordre @ c # queue) \<subseteq> ?C"
    and i3: "\<And>x. x \<in> ?C \<Longrightarrow> deg x = int (card (deps_of b ts x - set ordre))"
    and i4: "\<And>x. x \<in> ?C \<Longrightarrow> x \<in> set (ordre @ c # queue) \<longleftrightarrow> deg x = 0"
    and i5: "topo b ts ordre"
    unfolding bfs_inv_def by auto
  have SC: "?S \<subseteq> ?C" using fermeeD(2)[OF fe t(1)] by auto
  have S: "\<And>x. x \<in> ?C \<Longrightarrow> x \<in> ?S \<longleftrightarrow> c \<in> deps_of b ts x"
    using succ_codes[OF co fe t(1)] t(2) by simp
  have c_notin: "c \<notin> set ordre" using i1 by auto
  have zero: "\<And>x. x \<in> ?C \<Longrightarrow> deg x = 0 \<longleftrightarrow> deps_of b ts x \<subseteq> set ordre"
  proof -
    fix x assume "x \<in> ?C"
    then have "deg x = 0 \<longleftrightarrow> card (deps_of b ts x - set ordre) = 0" using i3 by simp
    also have "\<dots> \<longleftrightarrow> deps_of b ts x - set ordre = {}"
      using finite_deps_of[of b ts x] by simp
    finally show "deg x = 0 \<longleftrightarrow> deps_of b ts x \<subseteq> set ordre" by auto
  qed
  have new_set: "set ?new = {x \<in> ?S. deg x = 1}" by auto
  have old_not_S: "\<And>x. x \<in> set (ordre @ c # queue) \<Longrightarrow> x \<notin> ?S"
  proof
    fix x assume x: "x \<in> set (ordre @ c # queue)" and xs: "x \<in> ?S"
    from x i2 have xc: "x \<in> ?C" by auto
    with x i4 have "deg x = 0" by blast
    with xc zero have "deps_of b ts x \<subseteq> set ordre" by blast
    moreover from xs xc S have "c \<in> deps_of b ts x" by blast
    ultimately show False using c_notin by auto
  qed
  have n1: "distinct ((ordre @ [c]) @ queue @ ?new)"
  proof -
    have "distinct ?new" using ds by (simp add: distinct_map_filter)
    moreover have "set ?new \<inter> set (ordre @ c # queue) = {}"
      using old_not_S new_set by blast
    ultimately show ?thesis using i1 by auto
  qed
  have n2: "set ((ordre @ [c]) @ queue @ ?new) \<subseteq> ?C"
    using i2 SC new_set by auto
  have n3: "\<forall>x \<in> ?C. ?deg x = int (card (deps_of b ts x - set (ordre @ [c])))"
  proof
    fix x assume xc: "x \<in> ?C"
    show "?deg x = int (card (deps_of b ts x - set (ordre @ [c])))"
    proof (cases "x \<in> ?S")
      case True
      with xc S have cin: "c \<in> deps_of b ts x - set ordre" using c_notin by blast
      have "deps_of b ts x - set (ordre @ [c]) = (deps_of b ts x - set ordre) - {c}" by auto
      moreover have "card ((deps_of b ts x - set ordre) - {c}) = card (deps_of b ts x - set ordre) - 1"
        using cin finite_deps_of[of b ts x] by (simp add: card_Diff_singleton)
      moreover have "0 < card (deps_of b ts x - set ordre)"
        using cin finite_deps_of[of b ts x] by (auto simp: card_gt_0_iff)
      ultimately show ?thesis using True i3[OF xc] by simp
    next
      case False
      with xc S have "c \<notin> deps_of b ts x" by blast
      then have "deps_of b ts x - set (ordre @ [c]) = deps_of b ts x - set ordre" by auto
      with False i3[OF xc] show ?thesis by simp
    qed
  qed
  have n4: "\<forall>x \<in> ?C. x \<in> set ((ordre @ [c]) @ queue @ ?new) \<longleftrightarrow> ?deg x = 0"
  proof
    fix x assume xc: "x \<in> ?C"
    show "x \<in> set ((ordre @ [c]) @ queue @ ?new) \<longleftrightarrow> ?deg x = 0"
    proof (cases "x \<in> ?S")
      case True
      then have "x \<notin> set (ordre @ c # queue)" using old_not_S by blast
      with True new_set show ?thesis by auto
    next
      case False
      with new_set have "x \<notin> set ?new" by blast
      with False i4[OF xc] show ?thesis by auto
    qed
  qed
  have n5: "topo b ts (ordre @ [c])"
  proof (rule topo_snoc[OF i5])
    from i2 have cc: "c \<in> ?C" by auto
    with i4[OF cc] have "deg c = 0" by simp
    with zero[OF cc] show "deps_of b ts c \<subseteq> set ordre" by simp
  qed
  show ?thesis
    unfolding dec bfs_inv_def fst_conv snd_conv
    using n1 n2 n3 n4 n5 by blast
qed

lemma bfs_correct:
  "collection b ts \<Longrightarrow> fermee b ts \<Longrightarrow> bfs_inv b ts deg q ordre \<Longrightarrow>
   \<exists>res deg'. bfs b ts deg q ordre = Inr res \<and> bfs_inv b ts deg' [] res"
proof (induction b ts deg q ordre rule: bfs.induct)
  case (1 b ts deg ordre)
  then show ?case by auto
next
  case (2 b ts deg c queue ordre)
  from 2(4) have "c \<in> set (map code ts)" unfolding bfs_inv_def by auto
  then obtain t where td: "taches_dict ts c = Some t"
    using taches_dict_in_codes by blast
  from bfs_inv_step[OF 2(2) 2(3) 2(4) td] 2(1)[OF td refl 2(2) 2(3)] td
  show ?case by (simp add: Let_def)
qed

lemma topoD: "topo b ts (xs @ c # ys) \<Longrightarrow> deps_of b ts c \<subseteq> set xs"
  unfolding topo_def by (auto dest!: spec[of _ "length xs"])

lemma bfs_inv_init:
  assumes co: "collection b ts" and fe: "fermee b ts"
  shows "bfs_inv b ts (in_degree_init b ts)
           (map code (filter (\<lambda>t. in_degree_init b ts (code t) = 0) ts)) []"
proof -
  from co have dc: "distinct (map code ts)" by (rule collection_codes)
  have dd: "\<And>t. t \<in> set ts \<Longrightarrow> distinct (get_dependances_codes b t)"
    using dependances_codes_distincts[OF co fe] .
  have deg: "\<And>t. t \<in> set ts \<Longrightarrow>
      in_degree_init b ts (code t) = int (card (deps_of b ts (code t)))"
    using dc dd by (simp add: in_degree_init_code deps_of_code distinct_card)
  have "distinct (map code (filter (\<lambda>t. in_degree_init b ts (code t) = 0) ts))"
    using dc by (rule distinct_map_filter)
  then show ?thesis
    unfolding bfs_inv_def topo_def using deg by auto
qed

lemma tri_topologique_inv:
  assumes co: "collection b ts" and fe: "fermee b ts"
  shows "\<exists>ordre. tri_topologique b ts = Inr ordre \<and> distinct ordre \<and>
           set ordre \<subseteq> set (map code ts) \<and> topo b ts ordre \<and>
           (\<forall>c \<in> set (map code ts). c \<in> set ordre \<longleftrightarrow> deps_of b ts c \<subseteq> set ordre)"
proof -
  from bfs_correct[OF co fe bfs_inv_init[OF co fe]]
  obtain res deg' where r: "tri_topologique b ts = Inr res" and inv: "bfs_inv b ts deg' [] res"
    unfolding tri_topologique_def Let_def by blast
  have "\<forall>c \<in> set (map code ts). c \<in> set res \<longleftrightarrow> deps_of b ts c \<subseteq> set res"
  proof
    fix c assume c: "c \<in> set (map code ts)"
    from inv c have "c \<in> set res \<longleftrightarrow> card (deps_of b ts c - set res) = 0"
      unfolding bfs_inv_def by auto
    also have "\<dots> \<longleftrightarrow> deps_of b ts c - set res = {}"
      using finite_deps_of[of b ts c] by simp
    finally show "c \<in> set res \<longleftrightarrow> deps_of b ts c \<subseteq> set res" by auto
  qed
  with r inv show ?thesis unfolding bfs_inv_def by auto
qed

lemma finite_dep_rel: "finite (dep_rel b ts)"
  unfolding dep_rel_def by simp

lemma tri_topologique_complet:
  assumes co: "collection b ts" and fe: "fermee b ts" and ac: "acyclique b ts"
    and tri: "tri_topologique b ts = Inr ordre"
  shows "set ordre = set (map code ts)"
proof -
  from co have dc: "distinct (map code ts)" by (rule collection_codes)
  from tri_topologique_inv[OF co fe] tri
  have sub: "set ordre \<subseteq> set (map code ts)"
    and iff: "\<And>c. c \<in> set (map code ts) \<Longrightarrow> c \<in> set ordre \<longleftrightarrow> deps_of b ts c \<subseteq> set ordre"
    by auto
  have wf: "wf (dep_rel b ts)"
    using finite_acyclic_wf[OF finite_dep_rel] ac unfolding acyclique_def by blast
  have "set (map code ts) - set ordre = {}"
  proof (rule ccontr)
    assume "set (map code ts) - set ordre \<noteq> {}"
    then obtain x where "x \<in> set (map code ts) - set ordre" by blast
    from wfE_min[OF wf this]
    obtain z where z: "z \<in> set (map code ts) - set ordre"
      and zmin: "\<And>y. (y, z) \<in> dep_rel b ts \<Longrightarrow> y \<notin> set (map code ts) - set ordre"
      by blast
    from z obtain t where t: "t \<in> set ts" "z = code t" by auto
    have "deps_of b ts z \<subseteq> set ordre"
    proof
      fix d assume "d \<in> deps_of b ts z"
      with t dc have d: "d \<in> set (get_dependances_codes b t)" by (simp add: deps_of_code)
      with t have "(d, z) \<in> dep_rel b ts" unfolding dep_rel_def by auto
      from zmin[OF this] have "d \<notin> set (map code ts) - set ordre" .
      moreover from fermeeD(1)[OF fe t(1)] d have "d \<in> set (map code ts)"
        by (auto simp: get_dependances_codes_def)
      ultimately show "d \<in> set ordre" by blast
    qed
    with iff[of z] z show False by blast
  qed
  with sub show ?thesis by blast
qed

section \<open>The forward pass\<close>

text \<open>The four date dictionaries of a calculator, read as maps.\<close>

definition debut_tot :: "pert_calculator \<Rightarrow> string \<Rightarrow> int option" where
  "debut_tot st = map_of (dates_debut_tot st)"

definition fin_tot :: "pert_calculator \<Rightarrow> string \<Rightarrow> int option" where
  "fin_tot st = map_of (dates_fin_tot st)"

definition debut_tard :: "pert_calculator \<Rightarrow> string \<Rightarrow> int option" where
  "debut_tard st = map_of (dates_debut_tard st)"

definition fin_tard :: "pert_calculator \<Rightarrow> string \<Rightarrow> int option" where
  "fin_tard st = map_of (dates_fin_tard st)"

lemma map_of_dict_set: "map_of (dict_set k v d) = (map_of d)(k \<mapsto> v)"
  by (simp add: dict_set_def update_conv')

lemma dict_get_Some: "map_of d k = Some v \<Longrightarrow> dict_get d k = Inr v"
  by (simp add: dict_get_def)

lemma dict_get_Inr: "dict_get d k = Inr v \<longleftrightarrow> map_of d k = Some v"
  by (simp add: dict_get_def split: option.splits)

lemma dict_get_all_Some:
  "(\<forall>k \<in> set ks. map_of d k \<noteq> None) \<Longrightarrow>
   dict_get_all d ks = Inr (map (\<lambda>k. the (map_of d k)) ks)"
  by (induction ks) (auto simp: dict_get_def)

lemma py_max_Max: "xs \<noteq> [] \<Longrightarrow> py_max xs = Inr (Max (set xs))"
  by (cases xs) (simp_all add: py_max_def Max.set_eq_fold[symmetric])

lemma py_min_Min: "xs \<noteq> [] \<Longrightarrow> py_min xs = Inr (Min (set xs))"
  by (cases xs) (simp_all add: py_min_def Min.set_eq_fold[symmetric])

lemma init_dates_tot_fold:
  fixes xs :: "tache list"
  defines "F \<equiv> (\<lambda>t s. s\<lparr>dates_debut_tot := dict_set (code t) 0 (dates_debut_tot s),
                   dates_fin_tot := dict_set (code t) 0 (dates_fin_tot s)\<rparr>)"
  shows "taches (fold F xs st) = taches st"
    and "debut_tot (fold F xs st) = (\<lambda>c. if c \<in> code ` set xs then Some 0 else debut_tot st c)"
    and "fin_tot (fold F xs st) = (\<lambda>c. if c \<in> code ` set xs then Some 0 else fin_tot st c)"
    and "dates_debut_tard (fold F xs st) = dates_debut_tard st"
    and "dates_fin_tard (fold F xs st) = dates_fin_tard st"
proof -
  show "taches (fold F xs st) = taches st"
    by (induction xs arbitrary: st) (simp_all add: F_def)
  show "dates_debut_tard (fold F xs st) = dates_debut_tard st"
    by (induction xs arbitrary: st) (simp_all add: F_def)
  show "dates_fin_tard (fold F xs st) = dates_fin_tard st"
    by (induction xs arbitrary: st) (simp_all add: F_def)
  show "debut_tot (fold F xs st) = (\<lambda>c. if c \<in> code ` set xs then Some 0 else debut_tot st c)"
  proof (induction xs arbitrary: st)
    case Nil
    then show ?case by simp
  next
    case (Cons x xs)
    have "debut_tot (F x st) = (debut_tot st)(code x \<mapsto> 0)"
      by (simp add: F_def debut_tot_def map_of_dict_set)
    then show ?case by (auto simp: Cons.IH fun_eq_iff)
  qed
  show "fin_tot (fold F xs st) = (\<lambda>c. if c \<in> code ` set xs then Some 0 else fin_tot st c)"
  proof (induction xs arbitrary: st)
    case Nil
    then show ?case by simp
  next
    case (Cons x xs)
    have "fin_tot (F x st) = (fin_tot st)(code x \<mapsto> 0)"
      by (simp add: F_def fin_tot_def map_of_dict_set)
    then show ?case by (auto simp: Cons.IH fun_eq_iff)
  qed
qed

definition fwd_inv :: "base \<Rightarrow> tache list \<Rightarrow> pert_calculator \<Rightarrow> string list \<Rightarrow> bool" where
  "fwd_inv b ts st P \<longleftrightarrow>
     taches st = ts \<and>
     (\<forall>c \<in> set P. \<exists>t. taches_dict ts c = Some t \<and>
        debut_tot st c = Some (if get_dependances_codes b t = [] then 0
                               else Max ((\<lambda>d. the (fin_tot st d)) ` set (get_dependances_codes b t))) \<and>
        fin_tot st c = Some (the (debut_tot st c) + duree t)) \<and>
     (\<forall>c \<in> set (map code ts) - set P. debut_tot st c = Some 0 \<and> fin_tot st c = Some 0)"

lemma fwd_inv_init:
  "dates_debut_tot st = [] \<Longrightarrow> dates_fin_tot st = [] \<Longrightarrow>
   fwd_inv b (taches st) (init_dates_tot st) []"
  unfolding fwd_inv_def init_dates_tot_def
  by (simp add: init_dates_tot_fold)

lemma dependances_vide: "get_dependances_codes b t = [] \<longleftrightarrow> dependances b t = []"
  by (simp add: get_dependances_codes_def)

lemma dates_tot_boucle_correct:
  assumes dc: "distinct (map code ts)"
  shows "fwd_inv b ts st P \<Longrightarrow> distinct (P @ R) \<Longrightarrow> topo b ts (P @ R) \<Longrightarrow>
         set (P @ R) \<subseteq> set (map code ts) \<Longrightarrow>
         \<exists>st'. dates_tot_boucle b R st = Inr st' \<and> fwd_inv b ts st' (P @ R) \<and>
               dates_debut_tard st' = dates_debut_tard st \<and>
               dates_fin_tard st' = dates_fin_tard st"
proof (induction R arbitrary: st P)
  case Nil
  then show ?case by simp
next
  case (Cons c R)
  note inv = Cons.prems(1)
  from inv have tst: "taches st = ts" unfolding fwd_inv_def by simp
  from Cons.prems(4) have cC: "c \<in> set (map code ts)" by simp
  then obtain t where td: "taches_dict ts c = Some t"
    using taches_dict_in_codes by blast
  have c_notin: "c \<notin> set P" using Cons.prems(2) by auto
  have deps: "set (get_dependances_codes b t) \<subseteq> set P"
    using topoD[OF Cons.prems(3)] td by (simp add: deps_of_def)
  have fin_some: "\<forall>d \<in> set (get_dependances_codes b t). map_of (dates_fin_tot st) d \<noteq> None"
  proof
    fix d assume "d \<in> set (get_dependances_codes b t)"
    with deps have "d \<in> set P" by blast
    with inv show "map_of (dates_fin_tot st) d \<noteq> None"
      unfolding fwd_inv_def fin_tot_def by fastforce
  qed
  define debut where "debut = (if get_dependances_codes b t = [] then 0
      else Max ((\<lambda>d. the (fin_tot st d)) ` set (get_dependances_codes b t)))"
  have val: "(if dependances b t \<noteq> []
              then (case dict_get_all (dates_fin_tot st) (get_dependances_codes b t) of
                      Inl e \<Rightarrow> Inl e | Inr fins \<Rightarrow> py_max fins)
              else Inr 0) = Inr debut"
    unfolding debut_def
    by (simp add: dict_get_all_Some[OF fin_some] py_max_Max fin_tot_def image_image
        dependances_vide)
  define st2 where "st2 = st\<lparr>dates_debut_tot := dict_set c debut (dates_debut_tot st),
      dates_fin_tot := dict_set c (debut + duree t) (dates_fin_tot st)\<rparr>"
  have unfold: "dates_tot_boucle b (c # R) st = dates_tot_boucle b R st2"
    unfolding st2_def
    by (simp add: tst td val Let_def dict_get_def map_of_dict_set)
  have d2: "debut_tot st2 = (debut_tot st)(c \<mapsto> debut)"
    and f2: "fin_tot st2 = (fin_tot st)(c \<mapsto> debut + duree t)"
    and t2: "taches st2 = ts"
    unfolding st2_def debut_tot_def fin_tot_def using tst by (simp_all add: map_of_dict_set)
  have inv2: "fwd_inv b ts st2 (P @ [c])"
    unfolding fwd_inv_def
  proof (intro conjI)
    show "taches st2 = ts" by (rule t2)
  next
    show "\<forall>c \<in> set (P @ [c]). \<exists>t. taches_dict ts c = Some t \<and>
        debut_tot st2 c = Some (if get_dependances_codes b t = [] then 0
                               else Max ((\<lambda>d. the (fin_tot st2 d)) ` set (get_dependances_codes b t))) \<and>
        fin_tot st2 c = Some (the (debut_tot st2 c) + duree t)"
    proof
    fix x assume "x \<in> set (P @ [c])"
    then consider "x = c" | "x \<in> set P" "x \<noteq> c" using c_notin by auto
    then show "\<exists>t. taches_dict ts x = Some t \<and>
        debut_tot st2 x = Some (if get_dependances_codes b t = [] then 0
                               else Max ((\<lambda>d. the (fin_tot st2 d)) ` set (get_dependances_codes b t))) \<and>
        fin_tot st2 x = Some (the (debut_tot st2 x) + duree t)"
    proof cases
      case 1
      have img: "(\<lambda>d. the (fin_tot st2 d)) ` set (get_dependances_codes b t)
          = (\<lambda>d. the (fin_tot st d)) ` set (get_dependances_codes b t)"
        using deps c_notin by (intro image_cong) (auto simp: f2)
      have a: "debut_tot st2 c = Some debut" by (simp add: d2)
      have b: "fin_tot st2 c = Some (debut + duree t)" by (simp add: f2)
      have e: "(if get_dependances_codes b t = [] then 0
          else Max ((\<lambda>d. the (fin_tot st2 d)) ` set (get_dependances_codes b t))) = debut"
        unfolding img debut_def ..
      show ?thesis unfolding 1
        by (rule exI[of _ t]) (simp only: td a b e option.sel simp_thms)
    next
      case 2
      from inv 2(1) obtain u where u: "taches_dict ts x = Some u"
        "debut_tot st x = Some (if get_dependances_codes b u = [] then 0
                               else Max ((\<lambda>d. the (fin_tot st d)) ` set (get_dependances_codes b u)))"
        "fin_tot st x = Some (the (debut_tot st x) + duree u)"
        unfolding fwd_inv_def by blast
      from 2(1) obtain xs ys where P: "P = xs @ x # ys" by (auto simp: in_set_conv_decomp)
      with Cons.prems(3) have "topo b ts (xs @ x # (ys @ c # R))" by simp
      from topoD[OF this] u(1) have "set (get_dependances_codes b u) \<subseteq> set xs" by (simp add: deps_of_def)
      with P have "set (get_dependances_codes b u) \<subseteq> set P" by auto
      then have img: "(\<lambda>d. the (fin_tot st2 d)) ` set (get_dependances_codes b u)
          = (\<lambda>d. the (fin_tot st d)) ` set (get_dependances_codes b u)"
        using c_notin by (intro image_cong) (auto simp: f2)
      have a: "debut_tot st2 x = debut_tot st x" using 2(2) by (simp add: d2)
      have b: "fin_tot st2 x = fin_tot st x" using 2(2) by (simp add: f2)
      show ?thesis
        by (rule exI[of _ u]) (simp only: a b img u simp_thms)
    qed
    qed
  next
    show "\<forall>c \<in> set (map code ts) - set (P @ [c]).
        debut_tot st2 c = Some 0 \<and> fin_tot st2 c = Some 0"
    proof
      fix x assume "x \<in> set (map code ts) - set (P @ [c])"
      then have "x \<in> set (map code ts) - set P" "x \<noteq> c" by auto
      with inv show "debut_tot st2 x = Some 0 \<and> fin_tot st2 x = Some 0"
        unfolding fwd_inv_def by (simp add: d2 f2)
    qed
  qed
  from Cons.IH[OF inv2, of ] Cons.prems(2,3,4)
  obtain st' where "dates_tot_boucle b R st2 = Inr st'" "fwd_inv b ts st' ((P @ [c]) @ R)"
    "dates_debut_tard st' = dates_debut_tard st2" "dates_fin_tard st' = dates_fin_tard st2"
    by auto
  then show ?case unfolding unfold by (simp add: st2_def)
qed

lemma calculer_dates_tot_correct:
  assumes co: "collection b ts" and fe: "fermee b ts" and "taches st = ts"
    and "dates_debut_tot st = []" and "dates_fin_tot st = []"
  shows "\<exists>st1 ordre. tri_topologique b ts = Inr ordre \<and> calculer_dates_tot b st = Inr st1 \<and>
           fwd_inv b ts st1 ordre \<and>
           dates_debut_tard st1 = dates_debut_tard st \<and> dates_fin_tard st1 = dates_fin_tard st"
proof -
  from co have dc: "distinct (map code ts)" by (rule collection_codes)
  from tri_topologique_inv[OF co fe] obtain ordre where
    o: "tri_topologique b ts = Inr ordre" "distinct ordre" "set ordre \<subseteq> set (map code ts)"
       "topo b ts ordre" by blast
  have t0: "taches (init_dates_tot st) = ts"
    using assms(3) by (simp add: init_dates_tot_def init_dates_tot_fold)
  have inv0: "fwd_inv b ts (init_dates_tot st) []"
    using fwd_inv_init[OF assms(4,5)] assms(3) by simp
  from dates_tot_boucle_correct[OF dc inv0, of ordre] o
  obtain st1 where "dates_tot_boucle b ordre (init_dates_tot st) = Inr st1"
    "fwd_inv b ts st1 ordre"
    "dates_debut_tard st1 = dates_debut_tard (init_dates_tot st)"
    "dates_fin_tard st1 = dates_fin_tard (init_dates_tot st)"
    by auto
  then show ?thesis
    using o(1) t0
    by (simp add: calculer_dates_tot_def Let_def init_dates_tot_def init_dates_tot_fold)
qed

section \<open>The backward pass\<close>

lemma init_dates_tard_fold:
  fixes xs :: "tache list" and p :: int
  defines "F \<equiv> (\<lambda>t s. s\<lparr>dates_fin_tard := dict_set (code t) p (dates_fin_tard s),
                   dates_debut_tard := dict_set (code t) p (dates_debut_tard s)\<rparr>)"
  shows "taches (fold F xs st) = taches st"
    and "debut_tard (fold F xs st) = (\<lambda>c. if c \<in> code ` set xs then Some p else debut_tard st c)"
    and "fin_tard (fold F xs st) = (\<lambda>c. if c \<in> code ` set xs then Some p else fin_tard st c)"
    and "dates_debut_tot (fold F xs st) = dates_debut_tot st"
    and "dates_fin_tot (fold F xs st) = dates_fin_tot st"
proof -
  show "taches (fold F xs st) = taches st"
    by (induction xs arbitrary: st) (simp_all add: F_def)
  show "dates_debut_tot (fold F xs st) = dates_debut_tot st"
    by (induction xs arbitrary: st) (simp_all add: F_def)
  show "dates_fin_tot (fold F xs st) = dates_fin_tot st"
    by (induction xs arbitrary: st) (simp_all add: F_def)
  show "debut_tard (fold F xs st) = (\<lambda>c. if c \<in> code ` set xs then Some p else debut_tard st c)"
  proof (induction xs arbitrary: st)
    case Nil
    then show ?case by simp
  next
    case (Cons x xs)
    have "debut_tard (F x st) = (debut_tard st)(code x \<mapsto> p)"
      by (simp add: F_def debut_tard_def map_of_dict_set)
    then show ?case by (auto simp: Cons.IH fun_eq_iff)
  qed
  show "fin_tard (fold F xs st) = (\<lambda>c. if c \<in> code ` set xs then Some p else fin_tard st c)"
  proof (induction xs arbitrary: st)
    case Nil
    then show ?case by simp
  next
    case (Cons x xs)
    have "fin_tard (F x st) = (fin_tard st)(code x \<mapsto> p)"
      by (simp add: F_def fin_tard_def map_of_dict_set)
    then show ?case by (auto simp: Cons.IH fun_eq_iff)
  qed
qed

lemma taches_finales_correct:
  "taches st = ts \<Longrightarrow> \<forall>t \<in> set xs. fin_tot st (code t) \<noteq> None \<Longrightarrow>
   \<exists>st'. taches_finales b xs st = Inr st' \<and> taches st' = ts \<and>
     dates_debut_tot st' = dates_debut_tot st \<and> dates_fin_tot st' = dates_fin_tot st \<and>
     fin_tard st' = (\<lambda>c. if c \<in> code ` {t \<in> set xs. successeurs b t = []}
                              then fin_tot st c else fin_tard st c) \<and>
     dom (debut_tard st) \<subseteq> dom (debut_tard st')"
proof (induction xs arbitrary: st)
  case Nil
  then show ?case by simp
next
  case (Cons x xs)
  show ?case
  proof (cases "successeurs b x = []")
    case True
    from Cons.prems(2) obtain f where f: "fin_tot st (code x) = Some f" by auto
    define st2 where "st2 = st\<lparr>dates_fin_tard := dict_set (code x) f (dates_fin_tard st),
      dates_debut_tard := dict_set (code x) (f - duree x) (dates_debut_tard st)\<rparr>"
    have unfold: "taches_finales b (x # xs) st = taches_finales b xs st2"
      using True f Cons.prems(1) unfolding st2_def
      by (simp add: fin_tot_def dict_get_def map_of_dict_set Let_def)
    have p2: "taches st2 = ts" "fin_tot st2 = fin_tot st"
      "dates_debut_tot st2 = dates_debut_tot st" "dates_fin_tot st2 = dates_fin_tot st"
      "fin_tard st2 = (fin_tard st)(code x \<mapsto> f)"
      "debut_tard st2 = (debut_tard st)(code x \<mapsto> f - duree x)"
      using Cons.prems(1) unfolding st2_def fin_tot_def fin_tard_def debut_tard_def
      by (simp_all add: map_of_dict_set)
    from Cons.prems(2) p2(2) have "\<forall>t \<in> set xs. fin_tot st2 (code t) \<noteq> None" by simp
    from Cons.IH[OF p2(1) this] obtain st' where st':
      "taches_finales b xs st2 = Inr st'" "taches st' = ts"
      "dates_debut_tot st' = dates_debut_tot st2" "dates_fin_tot st' = dates_fin_tot st2"
      "fin_tard st' = (\<lambda>c. if c \<in> code ` {t \<in> set xs. successeurs b t = []}
                              then fin_tot st2 c else fin_tard st2 c)"
      "dom (debut_tard st2) \<subseteq> dom (debut_tard st')"
      by blast
    have "fin_tard st' = (\<lambda>c. if c \<in> code ` {t \<in> set (x # xs). successeurs b t = []}
                              then fin_tot st c else fin_tard st c)"
      unfolding st'(5) p2 using True f by (auto simp: fun_eq_iff)
    moreover have "dom (debut_tard st) \<subseteq> dom (debut_tard st')"
      using st'(6) unfolding p2 by auto
    ultimately show ?thesis
      unfolding unfold using st' p2 by simp
  next
    case False
    from Cons.prems(2) have "\<forall>t \<in> set xs. fin_tot st (code t) \<noteq> None" by simp
    from Cons.IH[OF Cons.prems(1) this] obtain st' where st':
      "taches_finales b xs st = Inr st'" "taches st' = ts"
      "dates_debut_tot st' = dates_debut_tot st" "dates_fin_tot st' = dates_fin_tot st"
      "fin_tard st' = (\<lambda>c. if c \<in> code ` {t \<in> set xs. successeurs b t = []}
                              then fin_tot st c else fin_tard st c)"
      "dom (debut_tard st) \<subseteq> dom (debut_tard st')"
      by blast
    have "fin_tard st' = (\<lambda>c. if c \<in> code ` {t \<in> set (x # xs). successeurs b t = []}
                              then fin_tot st c else fin_tard st c)"
      unfolding st'(5) using False by (auto simp: fun_eq_iff)
    then show ?thesis
      using st' False Cons.prems(1) by simp
  qed
qed

definition bwd_inv :: "base \<Rightarrow> tache list \<Rightarrow> pert_calculator \<Rightarrow> string list \<Rightarrow> bool" where
  "bwd_inv b ts st P \<longleftrightarrow>
     taches st = ts \<and>
     (\<forall>c \<in> set P. \<exists>t. taches_dict ts c = Some t \<and>
        fin_tard st c = Some (if successeurs b t = [] then the (fin_tot st c)
                              else Min ((\<lambda>s. the (debut_tard st (code s))) ` set (successeurs b t))) \<and>
        debut_tard st c = Some (the (fin_tard st c) - duree t)) \<and>
     (\<forall>c \<in> set (map code ts) - set P.
        fin_tard st c \<noteq> None \<and> debut_tard st c \<noteq> None \<and>
        (\<forall>t. taches_dict ts c = Some t \<longrightarrow> successeurs b t = [] \<longrightarrow>
             fin_tard st c = Some (the (fin_tot st c))))"

lemma rtopo_rev:
  assumes co: "collection b ts" and fe: "fermee b ts" and d: "distinct ordre" and tp: "topo b ts ordre"
    and full: "set ordre = set (map code ts)"
    and split: "rev ordre = xs @ c # ys" and td: "taches_dict ts c = Some t"
  shows "code ` set (successeurs b t) \<subseteq> set xs"
proof
  fix x assume x: "x \<in> code ` set (successeurs b t)"
  from td have t: "t \<in> set ts" "code t = c" using taches_dict_SomeD by auto
  from x fermeeD(2)[OF fe t(1)] have xC: "x \<in> set (map code ts)" by auto
  from succ_codes[OF co fe t(1) xC] x t(2) have cdep: "c \<in> deps_of b ts x" by simp
  from split have o: "ordre = rev ys @ c # rev xs"
    by (metis rev_append rev.simps(2) rev_rev_ident append_Cons append_Nil append_assoc)
  from d o have dist: "c \<notin> set ys" "c \<notin> set xs" "set xs \<inter> set ys = {}" by auto
  from xC full o have "x = c \<or> x \<in> set ys \<or> x \<in> set xs" by auto
  then show "x \<in> set xs"
  proof (elim disjE)
    assume "x = c"
    with cdep topoD[of b ts "rev ys" c "rev xs"] tp o dist show ?thesis by auto
  next
    assume "x \<in> set ys"
    then obtain ya yb where ys: "ys = ya @ x # yb" by (auto simp: in_set_conv_decomp)
    with o have "ordre = rev yb @ x # (rev ya @ c # rev xs)" by simp
    with tp have "topo b ts (rev yb @ x # (rev ya @ c # rev xs))" by simp
    from topoD[OF this] cdep have "c \<in> set yb" by auto
    with ys dist show ?thesis by auto
  qed
qed

lemma dates_tard_boucle_correct:
  assumes dc: "distinct (map code ts)"
  shows "bwd_inv b ts st P \<Longrightarrow> distinct (P @ R) \<Longrightarrow>
         (\<forall>xs c ys t. P @ R = xs @ c # ys \<longrightarrow> taches_dict ts c = Some t \<longrightarrow>
              code ` set (successeurs b t) \<subseteq> set xs) \<Longrightarrow>
         set (P @ R) \<subseteq> set (map code ts) \<Longrightarrow>
         \<exists>st'. dates_tard_boucle b R st = Inr st' \<and> bwd_inv b ts st' (P @ R) \<and>
               dates_debut_tot st' = dates_debut_tot st \<and>
               dates_fin_tot st' = dates_fin_tot st"
proof (induction R arbitrary: st P)
  case Nil
  then show ?case by simp
next
  case (Cons c R)
  note inv = Cons.prems(1)
  note rt = Cons.prems(3)
  from inv have tst: "taches st = ts" unfolding bwd_inv_def by simp
  from Cons.prems(4) have cC: "c \<in> set (map code ts)" by simp
  then obtain t where td: "taches_dict ts c = Some t"
    using taches_dict_in_codes by blast
  have c_notin: "c \<notin> set P" using Cons.prems(2) by auto
  have cCP: "c \<in> set (map code ts) - set P" using cC c_notin by simp
  have succs: "code ` set (successeurs b t) \<subseteq> set P"
    using rt td by blast
  have deb_some: "\<forall>k \<in> set (map code (successeurs b t)). map_of (dates_debut_tard st) k \<noteq> None"
  proof
    fix k assume "k \<in> set (map code (successeurs b t))"
    with succs have "k \<in> set P" by auto
    with inv show "map_of (dates_debut_tard st) k \<noteq> None"
      unfolding bwd_inv_def debut_tard_def by fastforce
  qed
  define ft where "ft = (if successeurs b t = [] then the (fin_tot st c)
      else Min ((\<lambda>s. the (debut_tard st (code s))) ` set (successeurs b t)))"
  define st1 where "st1 = (if successeurs b t \<noteq> []
      then st\<lparr>dates_fin_tard := dict_set c ft (dates_fin_tard st)\<rparr> else st)"
  have val: "(if successeurs b t \<noteq> []
                 then (case dict_get_all (dates_debut_tard st)
                              (map code (successeurs b t)) of
                         Inl e \<Rightarrow> Inl e
                       | Inr debuts \<Rightarrow>
                           (case py_min debuts of
                              Inl e \<Rightarrow> Inl e
                            | Inr m \<Rightarrow>
                                Inr (st\<lparr>dates_fin_tard :=
                                          dict_set c m (dates_fin_tard st)\<rparr>)))
                 else Inr st) = Inr st1"
    unfolding st1_def ft_def
    by (simp add: dict_get_all_Some[OF deb_some] py_min_Min debut_tard_def image_image)
  have ft1: "fin_tard st1 c = Some ft"
  proof (cases "successeurs b t = []")
    case True
    with inv cCP td have "fin_tard st c = Some (the (fin_tot st c))"
      unfolding bwd_inv_def by blast
    with True show ?thesis by (simp add: st1_def ft_def)
  next
    case False
    then show ?thesis by (simp add: st1_def fin_tard_def map_of_dict_set)
  qed
  define st2 where "st2 = st1\<lparr>dates_debut_tard := dict_set c (ft - duree t) (dates_debut_tard st1)\<rparr>"
  have g: "dict_get (dates_fin_tard st1) c = Inr ft"
    using ft1 by (simp add: dict_get_def fin_tard_def)
  have unfold: "dates_tard_boucle b (c # R) st = dates_tard_boucle b R st2"
    unfolding st2_def
    by (simp only: dates_tard_boucle.simps tst td option.case val sum.case g)
  have f2: "fin_tard st2 = (fin_tard st)(c \<mapsto> ft)"
  proof (cases "successeurs b t = []")
    case True
    with ft1 have "fin_tard st c = Some ft" by (simp add: st1_def)
    then have "(fin_tard st)(c \<mapsto> ft) = fin_tard st" by (auto simp: fun_eq_iff)
    with True show ?thesis by (simp add: st2_def st1_def fin_tard_def)
  next
    case False
    then show ?thesis by (simp add: st2_def st1_def fin_tard_def map_of_dict_set)
  qed
  have d2: "debut_tard st2 = (debut_tard st)(c \<mapsto> ft - duree t)"
    by (simp add: st2_def st1_def debut_tard_def map_of_dict_set)
  have t2: "taches st2 = ts" "fin_tot st2 = fin_tot st"
    "dates_debut_tot st2 = dates_debut_tot st" "dates_fin_tot st2 = dates_fin_tot st"
    using tst by (simp_all add: st2_def st1_def fin_tot_def)
  have inv2: "bwd_inv b ts st2 (P @ [c])"
    unfolding bwd_inv_def
  proof (intro conjI)
    show "taches st2 = ts" by (rule t2)
  next
    show "\<forall>c \<in> set (P @ [c]). \<exists>t. taches_dict ts c = Some t \<and>
        fin_tard st2 c = Some (if successeurs b t = [] then the (fin_tot st2 c)
                              else Min ((\<lambda>s. the (debut_tard st2 (code s))) ` set (successeurs b t))) \<and>
        debut_tard st2 c = Some (the (fin_tard st2 c) - duree t)"
    proof
      fix x assume "x \<in> set (P @ [c])"
      then consider "x = c" | "x \<in> set P" "x \<noteq> c" using c_notin by auto
      then show "\<exists>t. taches_dict ts x = Some t \<and>
        fin_tard st2 x = Some (if successeurs b t = [] then the (fin_tot st2 x)
                              else Min ((\<lambda>s. the (debut_tard st2 (code s))) ` set (successeurs b t))) \<and>
        debut_tard st2 x = Some (the (fin_tard st2 x) - duree t)"
      proof cases
        case 1
        have img: "(\<lambda>s. the (debut_tard st2 (code s))) ` set (successeurs b t)
            = (\<lambda>s. the (debut_tard st (code s))) ` set (successeurs b t)"
          using succs c_notin by (intro image_cong) (auto simp: d2)
        have a: "fin_tard st2 c = Some ft" by (simp add: f2)
        have b: "debut_tard st2 c = Some (ft - duree t)" by (simp add: d2)
        have e: "(if successeurs b t = [] then the (fin_tot st2 c)
              else Min ((\<lambda>s. the (debut_tard st2 (code s))) ` set (successeurs b t))) = ft"
          unfolding img ft_def t2 ..
        show ?thesis unfolding 1
          by (rule exI[of _ t]) (simp only: td a b e option.sel simp_thms)
      next
        case 2
        from inv 2(1) obtain u where u: "taches_dict ts x = Some u"
          "fin_tard st x = Some (if successeurs b u = [] then the (fin_tot st x)
                              else Min ((\<lambda>s. the (debut_tard st (code s))) ` set (successeurs b u)))"
          "debut_tard st x = Some (the (fin_tard st x) - duree u)"
          unfolding bwd_inv_def by blast
        from 2(1) obtain xs ys where P: "P = xs @ x # ys" by (auto simp: in_set_conv_decomp)
        then have "P @ c # R = xs @ x # (ys @ c # R)" by simp
        with rt u(1) have "code ` set (successeurs b u) \<subseteq> set xs" by blast
        with P have "code ` set (successeurs b u) \<subseteq> set P" by auto
        then have img: "(\<lambda>s. the (debut_tard st2 (code s))) ` set (successeurs b u)
            = (\<lambda>s. the (debut_tard st (code s))) ` set (successeurs b u)"
          using c_notin by (intro image_cong) (auto simp: d2)
        have a: "fin_tard st2 x = fin_tard st x" using 2(2) by (simp add: f2)
        have b: "debut_tard st2 x = debut_tard st x" using 2(2) by (simp add: d2)
        show ?thesis
          by (rule exI[of _ u]) (simp only: a b img u t2 simp_thms)
      qed
    qed
  next
    show "\<forall>c \<in> set (map code ts) - set (P @ [c]).
        fin_tard st2 c \<noteq> None \<and> debut_tard st2 c \<noteq> None \<and>
        (\<forall>t. taches_dict ts c = Some t \<longrightarrow> successeurs b t = [] \<longrightarrow>
             fin_tard st2 c = Some (the (fin_tot st2 c)))"
    proof
      fix x assume "x \<in> set (map code ts) - set (P @ [c])"
      then have x: "x \<in> set (map code ts) - set P" "x \<noteq> c" by auto
      with inv show "fin_tard st2 x \<noteq> None \<and> debut_tard st2 x \<noteq> None \<and>
        (\<forall>t. taches_dict ts x = Some t \<longrightarrow> successeurs b t = [] \<longrightarrow>
             fin_tard st2 x = Some (the (fin_tot st2 x)))"
        unfolding bwd_inv_def by (simp add: d2 f2 t2)
    qed
  qed
  have rt2: "\<forall>xs c' ys t. (P @ [c]) @ R = xs @ c' # ys \<longrightarrow> taches_dict ts c' = Some t \<longrightarrow>
              code ` set (successeurs b t) \<subseteq> set xs"
    using rt by simp
  have dist2: "distinct ((P @ [c]) @ R)" using Cons.prems(2) by simp
  have sub2: "set ((P @ [c]) @ R) \<subseteq> set (map code ts)" using Cons.prems(4) by simp
  from Cons.IH[OF inv2 dist2 rt2 sub2]
  obtain st' where "dates_tard_boucle b R st2 = Inr st'" "bwd_inv b ts st' ((P @ [c]) @ R)"
    "dates_debut_tot st' = dates_debut_tot st2" "dates_fin_tot st' = dates_fin_tot st2"
    by blast
  then show ?case unfolding unfold by (simp add: t2)
qed

lemma fwd_inv_Some:
  "fwd_inv b ts st ordre \<Longrightarrow> set ordre \<subseteq> set (map code ts) \<Longrightarrow> c \<in> set (map code ts) \<Longrightarrow>
   debut_tot st c \<noteq> None \<and> fin_tot st c \<noteq> None"
  unfolding fwd_inv_def by (cases "c \<in> set ordre") fastforce+

lemma calculer_dates_tard_correct:
  assumes co: "collection b ts" and fe: "fermee b ts" and ac: "acyclique b ts"
    and ne: "ts \<noteq> []" and tst: "taches st = ts"
    and fwd: "fwd_inv b ts st ordre" and tri: "tri_topologique b ts = Inr ordre"
  shows "\<exists>st2. calculer_dates_tard b st = Inr st2 \<and> bwd_inv b ts st2 (rev ordre) \<and>
           dates_debut_tot st2 = dates_debut_tot st \<and> dates_fin_tot st2 = dates_fin_tot st"
proof -
  from co have dc: "distinct (map code ts)" by (rule collection_codes)
  from tri_topologique_inv[OF co fe] tri have o: "distinct ordre" "topo b ts ordre" by auto
  have full: "set ordre = set (map code ts)"
    using tri_topologique_complet[OF co fe ac tri] .
  have some: "\<And>c. c \<in> set (map code ts) \<Longrightarrow> fin_tot st c \<noteq> None"
    using fwd_inv_Some[OF fwd] full by blast
  from ne obtain t0 where "t0 \<in> set ts" by (cases ts) auto
  then have "fin_tot st (code t0) \<noteq> None" using some by simp
  then have "dates_fin_tot st \<noteq> []" unfolding fin_tot_def by auto
  then obtain p where p: "py_max (dict_values (dates_fin_tot st)) = Inr p"
    by (cases "dates_fin_tot st") (auto simp: py_max_def dict_values_def)
  define sti where "sti = init_dates_tard p st"
  have i: "taches sti = ts" "dates_debut_tot sti = dates_debut_tot st"
    "dates_fin_tot sti = dates_fin_tot st"
    "debut_tard sti = (\<lambda>c. if c \<in> code ` set ts then Some p else debut_tard st c)"
    "fin_tard sti = (\<lambda>c. if c \<in> code ` set ts then Some p else fin_tard st c)"
    unfolding sti_def init_dates_tard_def using tst
    by (simp_all add: init_dates_tard_fold)
  have fi: "fin_tot sti = fin_tot st" using i(3) by (simp add: fin_tot_def)
  have "\<forall>t \<in> set ts. fin_tot sti (code t) \<noteq> None" using some fi by simp
  from taches_finales_correct[OF i(1) this] obtain stf where f:
    "taches_finales b ts sti = Inr stf" "taches stf = ts"
    "dates_debut_tot stf = dates_debut_tot sti" "dates_fin_tot stf = dates_fin_tot sti"
    "fin_tard stf = (\<lambda>c. if c \<in> code ` {t \<in> set ts. successeurs b t = []}
                              then fin_tot sti c else fin_tard sti c)"
    "dom (debut_tard sti) \<subseteq> dom (debut_tard stf)"
    by blast
  have ff: "fin_tot stf = fin_tot st" using f(4) i(3) by (simp add: fin_tot_def)
  have inv0: "bwd_inv b ts stf []"
    unfolding bwd_inv_def
  proof (intro conjI)
    show "taches stf = ts" by (rule f(2))
  next
    show "\<forall>c \<in> set []. \<exists>t. taches_dict ts c = Some t \<and>
        fin_tard stf c = Some (if successeurs b t = [] then the (fin_tot stf c)
                              else Min ((\<lambda>s. the (debut_tard stf (code s))) ` set (successeurs b t))) \<and>
        debut_tard stf c = Some (the (fin_tard stf c) - duree t)" by simp
  next
    show "\<forall>c \<in> set (map code ts) - set [].
        fin_tard stf c \<noteq> None \<and> debut_tard stf c \<noteq> None \<and>
        (\<forall>t. taches_dict ts c = Some t \<longrightarrow> successeurs b t = [] \<longrightarrow>
             fin_tard stf c = Some (the (fin_tot stf c)))"
    proof
      fix c assume "c \<in> set (map code ts) - set []"
      then have c: "c \<in> set (map code ts)" by simp
      have a: "fin_tard stf c \<noteq> None"
        using some[OF c] c unfolding f(5) fi i(5) by auto
      have "c \<in> dom (debut_tard sti)" using c unfolding i(4) by auto
      with f(6) have b: "debut_tard stf c \<noteq> None" by blast
      have "\<forall>t. taches_dict ts c = Some t \<longrightarrow> successeurs b t = [] \<longrightarrow>
             fin_tard stf c = Some (the (fin_tot stf c))"
      proof (intro allI impI)
        fix t assume "taches_dict ts c = Some t" "successeurs b t = []"
        then have "c \<in> code ` {t \<in> set ts. successeurs b t = []}"
          using taches_dict_SomeD by force
        then have "fin_tard stf c = fin_tot st c" unfolding f(5) fi by simp
        with some[OF c] show "fin_tard stf c = Some (the (fin_tot stf c))"
          unfolding ff by auto
      qed
      with a b show "fin_tard stf c \<noteq> None \<and> debut_tard stf c \<noteq> None \<and>
        (\<forall>t. taches_dict ts c = Some t \<longrightarrow> successeurs b t = [] \<longrightarrow>
             fin_tard stf c = Some (the (fin_tot stf c)))" by blast
    qed
  qed
  have rt: "\<forall>xs c ys t. [] @ rev ordre = xs @ c # ys \<longrightarrow> taches_dict ts c = Some t \<longrightarrow>
              code ` set (successeurs b t) \<subseteq> set xs"
    using rtopo_rev[OF co fe o(1) o(2) full] by auto
  have "distinct ([] @ rev ordre)" "set ([] @ rev ordre) \<subseteq> set (map code ts)"
    using o(1) full by auto
  from dates_tard_boucle_correct[OF dc inv0 this(1) rt this(2)]
  obtain st2 where "dates_tard_boucle b (rev ordre) stf = Inr st2" "bwd_inv b ts st2 (rev ordre)"
    "dates_debut_tot st2 = dates_debut_tot stf" "dates_fin_tot st2 = dates_fin_tot stf"
    by auto
  then show ?thesis
    unfolding calculer_dates_tard_def
    using p f tri i tst by (simp add: sti_def[symmetric])
qed

section \<open>What a run that succeeds has done\<close>

text \<open>
  The lemmas of this section hold for every collection: they read off, from the fact that
  a pass or a loop has returned normally, what it has computed.
\<close>

lemma dict_get_all_Inr:
  "dict_get_all d ks = Inr vs \<Longrightarrow>
   vs = map (\<lambda>k. the (map_of d k)) ks \<and> set ks \<subseteq> dom (map_of d)"
proof (induction ks arbitrary: vs)
  case Nil
  then show ?case by simp
next
  case (Cons k ks)
  from Cons.prems obtain v vs' where v: "dict_get d k = Inr v" "dict_get_all d ks = Inr vs'"
    "vs = v # vs'"
    by (auto split: sum.splits)
  from v(1) have "map_of d k = Some v" by (simp add: dict_get_Inr)
  with Cons.IH[OF v(2)] v(3) show ?case by auto
qed

lemma py_min_Inr: "py_min xs = Inr m \<Longrightarrow> xs \<noteq> [] \<and> m = Min (set xs)"
  by (cases xs) (simp_all add: py_min_def Min.set_eq_fold[symmetric])

lemma py_max_Inr: "py_max xs = Inr m \<Longrightarrow> xs \<noteq> [] \<and> m = Max (set xs)"
  by (cases xs) (simp_all add: py_max_def Max.set_eq_fold[symmetric])

subsection \<open>The forward pass\<close>

text \<open>
  Whatever the collection, the forward loop leaves the keys of the dictionaries among the
  codes of the tasks; a code that it has processed belongs to a task whose dependencies
  all carry the code of a task, and has its earliest finish equal to its earliest start
  plus the duration of that task; a code that it has not processed keeps the two zeros of
  the initialisation.
\<close>

definition fwd_gen :: "base \<Rightarrow> tache list \<Rightarrow> pert_calculator \<Rightarrow> string list \<Rightarrow> bool" where
  "fwd_gen b ts st P \<longleftrightarrow>
     taches st = ts \<and> dom (fin_tot st) \<subseteq> set (map code ts) \<and>
     (\<forall>c \<in> set P. \<exists>t. taches_dict ts c = Some t \<and>
        set (get_dependances_codes b t) \<subseteq> set (map code ts) \<and>
        fin_tot st c = Some (the (debut_tot st c) + duree t)) \<and>
     (\<forall>c \<in> set (map code ts) - set P. debut_tot st c = Some 0 \<and> fin_tot st c = Some 0)"

lemma dates_tot_boucle_gen:
  "fwd_gen b ts st P \<Longrightarrow> dates_tot_boucle b R st = Inr st' \<Longrightarrow> fwd_gen b ts st' (P @ R)"
proof (induction R arbitrary: st P)
  case Nil
  then show ?case by simp
next
  case (Cons c R)
  note inv = Cons.prems(1)
  from inv have tst: "taches st = ts" unfolding fwd_gen_def by simp
  from Cons.prems(2) tst obtain t where td: "taches_dict ts c = Some t"
    by (cases "taches_dict ts c") auto
  from td have t: "t \<in> set ts" "code t = c" using taches_dict_SomeD by auto
  let ?val = "if dependances b t \<noteq> []
              then (case dict_get_all (dates_fin_tot st) (get_dependances_codes b t) of
                      Inl e \<Rightarrow> Inl e | Inr fins \<Rightarrow> py_max fins)
              else Inr 0"
  from Cons.prems(2) tst td obtain debut where val: "?val = Inr debut"
    by (cases ?val) auto
  define st2 where "st2 = st\<lparr>dates_debut_tot := dict_set c debut (dates_debut_tot st),
      dates_fin_tot := dict_set c (debut + duree t) (dates_fin_tot st)\<rparr>"
  have unfold: "dates_tot_boucle b (c # R) st = dates_tot_boucle b R st2"
    unfolding st2_def
    by (simp only: dates_tot_boucle.simps tst td option.case val sum.case)
       (simp add: Let_def dict_get_def map_of_dict_set)
  have deps: "set (get_dependances_codes b t) \<subseteq> set (map code ts)"
  proof (cases "dependances b t = []")
    case True
    then show ?thesis by (simp add: get_dependances_codes_def)
  next
    case False
    with val obtain fins where
      "dict_get_all (dates_fin_tot st) (get_dependances_codes b t) = Inr fins"
      by (auto split: sum.splits)
    from dict_get_all_Inr[OF this] have "set (get_dependances_codes b t) \<subseteq> dom (fin_tot st)"
      by (simp add: fin_tot_def)
    with inv show ?thesis unfolding fwd_gen_def by blast
  qed
  have d2: "debut_tot st2 = (debut_tot st)(c \<mapsto> debut)"
    and f2: "fin_tot st2 = (fin_tot st)(c \<mapsto> debut + duree t)"
    and t2: "taches st2 = ts"
    unfolding st2_def debut_tot_def fin_tot_def using tst by (simp_all add: map_of_dict_set)
  have inv2: "fwd_gen b ts st2 (P @ [c])"
    unfolding fwd_gen_def
  proof (intro conjI)
    show "taches st2 = ts" by (rule t2)
  next
    show "dom (fin_tot st2) \<subseteq> set (map code ts)"
      using inv t unfolding fwd_gen_def f2 by auto
  next
    show "\<forall>c \<in> set (P @ [c]). \<exists>t. taches_dict ts c = Some t \<and>
        set (get_dependances_codes b t) \<subseteq> set (map code ts) \<and>
        fin_tot st2 c = Some (the (debut_tot st2 c) + duree t)"
    proof
      fix x assume x: "x \<in> set (P @ [c])"
      show "\<exists>t. taches_dict ts x = Some t \<and>
        set (get_dependances_codes b t) \<subseteq> set (map code ts) \<and>
        fin_tot st2 x = Some (the (debut_tot st2 x) + duree t)"
      proof (cases "x = c")
        case True
        have "fin_tot st2 c = Some (the (debut_tot st2 c) + duree t)" by (simp add: d2 f2)
        with td deps True show ?thesis by blast
      next
        case False
        with x have "x \<in> set P" by simp
        with inv obtain u where u: "taches_dict ts x = Some u"
          "set (get_dependances_codes b u) \<subseteq> set (map code ts)"
          "fin_tot st x = Some (the (debut_tot st x) + duree u)"
          unfolding fwd_gen_def by blast
        from False u(3) have "fin_tot st2 x = Some (the (debut_tot st2 x) + duree u)"
          by (simp add: d2 f2)
        with u show ?thesis by blast
      qed
    qed
  next
    show "\<forall>c \<in> set (map code ts) - set (P @ [c]).
        debut_tot st2 c = Some 0 \<and> fin_tot st2 c = Some 0"
    proof
      fix x assume "x \<in> set (map code ts) - set (P @ [c])"
      then have "x \<in> set (map code ts) - set P" "x \<noteq> c" by auto
      with inv show "debut_tot st2 x = Some 0 \<and> fin_tot st2 x = Some 0"
        unfolding fwd_gen_def by (simp add: d2 f2)
    qed
  qed
  from Cons.prems(2) have "dates_tot_boucle b R st2 = Inr st'" unfolding unfold .
  from Cons.IH[OF inv2 this] show ?case by simp
qed

lemma calculer_dates_tot_gen:
  assumes "calculer_dates_tot b (PertCalculator ts) = Inr st1"
  shows "\<exists>ordre. tri_topologique b ts = Inr ordre \<and> fwd_gen b ts st1 ordre"
proof -
  let ?st0 = "init_dates_tot (PertCalculator ts)"
  have t0: "taches ?st0 = ts"
    by (simp add: init_dates_tot_def init_dates_tot_fold PertCalculator_def)
  from assms t0 obtain ordre where o: "tri_topologique b ts = Inr ordre"
    "dates_tot_boucle b ordre ?st0 = Inr st1"
    by (cases "tri_topologique b ts") (auto simp: calculer_dates_tot_def Let_def)
  have p0: "taches (PertCalculator ts) = ts" "debut_tot (PertCalculator ts) = (\<lambda>c. None)"
    "fin_tot (PertCalculator ts) = (\<lambda>c. None)"
    by (simp_all add: PertCalculator_def debut_tot_def fin_tot_def)
  have "debut_tot ?st0 = (\<lambda>c. if c \<in> code ` set (taches (PertCalculator ts)) then Some 0
                             else debut_tot (PertCalculator ts) c)"
    "fin_tot ?st0 = (\<lambda>c. if c \<in> code ` set (taches (PertCalculator ts)) then Some 0
                           else fin_tot (PertCalculator ts) c)"
    unfolding init_dates_tot_def by (rule init_dates_tot_fold)+
  then have "debut_tot ?st0 = (\<lambda>c. if c \<in> code ` set ts then Some 0 else None)"
    "fin_tot ?st0 = (\<lambda>c. if c \<in> code ` set ts then Some 0 else None)"
    unfolding p0 by simp_all
  then have "fwd_gen b ts ?st0 []"
    unfolding fwd_gen_def using t0 by (auto simp: dom_def)
  from dates_tot_boucle_gen[OF this o(2)] o(1) show ?thesis by simp
qed

subsection \<open>The backward pass\<close>

lemma taches_finales_gen:
  "taches_finales b xs st = Inr st' \<Longrightarrow>
   taches st' = taches st \<and> dates_debut_tot st' = dates_debut_tot st \<and>
   dates_fin_tot st' = dates_fin_tot st"
proof (induction xs arbitrary: st)
  case Nil
  then show ?case by simp
next
  case (Cons x xs)
  show ?case
  proof (cases "successeurs b x = []")
    case True
    with Cons.prems obtain st2 where "taches_finales b xs st2 = Inr st'"
      "taches st2 = taches st" "dates_debut_tot st2 = dates_debut_tot st"
      "dates_fin_tot st2 = dates_fin_tot st"
      by (auto simp: Let_def split: sum.splits)
    with Cons.IH[OF this(1)] show ?thesis by simp
  next
    case False
    with Cons.prems Cons.IH[of st] show ?thesis by simp
  qed
qed

lemma dates_tard_boucle_gen:
  "dates_tard_boucle b R st = Inr st' \<Longrightarrow>
   taches st' = taches st \<and> dates_debut_tot st' = dates_debut_tot st \<and>
   dates_fin_tot st' = dates_fin_tot st"
proof (induction R arbitrary: st)
  case Nil
  then show ?case by simp
next
  case (Cons c R)
  from Cons.prems obtain st2 where "dates_tard_boucle b R st2 = Inr st'"
    "taches st2 = taches st" "dates_debut_tot st2 = dates_debut_tot st"
    "dates_fin_tot st2 = dates_fin_tot st"
    by (auto simp: Let_def split: sum.splits option.splits if_splits)
  with Cons.IH[OF this(1)] show ?case by simp
qed

lemma calculer_dates_tard_gen:
  assumes "calculer_dates_tard b st = Inr st'"
  shows "taches st' = taches st \<and> dates_debut_tot st' = dates_debut_tot st \<and>
         dates_fin_tot st' = dates_fin_tot st"
proof -
  from assms obtain p sf ordre where
    a: "taches_finales b (taches st) (init_dates_tard p st) = Inr sf"
       "dates_tard_boucle b (rev ordre) sf = Inr st'"
    by (auto simp: calculer_dates_tard_def split: sum.splits)
  have i: "taches (init_dates_tard p st) = taches st"
    "dates_debut_tot (init_dates_tard p st) = dates_debut_tot st"
    "dates_fin_tot (init_dates_tard p st) = dates_fin_tot st"
    by (simp_all add: init_dates_tard_def init_dates_tard_fold)
  from taches_finales_gen[OF a(1)] dates_tard_boucle_gen[OF a(2)] i
  show ?thesis by simp
qed

subsection \<open>Slack and saving\<close>

text \<open>
  The task that the slack loop leaves for a task, and the task that the saving loop then
  leaves for it, given the dictionaries of the calculator.
\<close>

definition marges_de :: "base \<Rightarrow> pert_calculator \<Rightarrow> tache \<Rightarrow> tache" where
  "marges_de b st t =
     t\<lparr>marge_totale := Some (the (debut_tard st (code t)) - the (debut_tot st (code t))),
       marge_libre := Some (if successeurs b t = []
                            then the (debut_tard st (code t)) - the (debut_tot st (code t))
                            else Min ((\<lambda>s. the (debut_tot st (code s))) ` set (successeurs b t))
                                 - the (fin_tot st (code t)))\<rparr>"

lemma marges_tache_gen:
  assumes "marges_tache b st t = (None, t')"
  shows "t' = marges_de b st t"
proof -
  from assms obtain ls es where v: "dict_get (dates_debut_tard st) (code t) = Inr ls"
    "dict_get (dates_debut_tot st) (code t) = Inr es"
    unfolding marges_tache_def by (auto split: sum.splits)
  then have m: "debut_tard st (code t) = Some ls" "debut_tot st (code t) = Some es"
    by (simp_all add: dict_get_Inr debut_tard_def debut_tot_def)
  show ?thesis
  proof (cases "successeurs b t = []")
    case True
    with assms v m show ?thesis
      by (simp add: marges_tache_def marges_de_def Let_def)
  next
    case False
    with assms v obtain debuts mn ef where w:
      "dict_get_all (dates_debut_tot st) (map code (successeurs b t)) = Inr debuts"
      "py_min debuts = Inr mn" "dict_get (dates_fin_tot st) (code t) = Inr ef"
      unfolding marges_tache_def by (auto simp: Let_def split: sum.splits)
    from dict_get_all_Inr[OF w(1)] py_min_Inr[OF w(2)]
    have "mn = Min ((\<lambda>s. the (debut_tot st (code s))) ` set (successeurs b t))"
      by (simp add: debut_tot_def image_image)
    moreover from w(3) have "fin_tot st (code t) = Some ef"
      by (simp add: dict_get_Inr fin_tot_def)
    ultimately show ?thesis
      using assms v m w False by (simp add: marges_tache_def marges_de_def Let_def)
  qed
qed

lemma marges_boucle_gen:
  "marges_boucle b st xs = (None, ys) \<Longrightarrow> ys = map (marges_de b st) xs"
proof (induction xs arbitrary: ys)
  case Nil
  then show ?case by simp
next
  case (Cons x xs)
  from Cons.prems obtain x' ys' where a: "marges_tache b st x = (None, x')"
    "marges_boucle b st xs = (None, ys')" "ys = x' # ys'"
    by (auto split: prod.splits option.splits)
  from marges_tache_gen[OF a(1)] Cons.IH[OF a(2)] a(3) show ?case by simp
qed

definition sauvegarde_de :: "plateforme \<Rightarrow> pert_calculator \<Rightarrow> tache \<Rightarrow> tache" where
  "sauvegarde_de p st t =
     t\<lparr>code := str_upper p (code t),
       date_debut_tot := Some (the (debut_tot st (code t))),
       date_fin_tot := Some (the (fin_tot st (code t))),
       date_debut_tard := Some (the (debut_tard st (code t))),
       date_fin_tard := Some (the (fin_tard st (code t)))\<rparr>"

lemma sauvegarder_tache_gen:
  assumes "sauvegarder_tache p b st t = (None, t', b')"
  shows "t' = sauvegarde_de p st t"
proof -
  from assms obtain v1 v2 v3 v4 where v:
    "dict_get (dates_debut_tot st) (code t) = Inr v1"
    "dict_get (dates_fin_tot st) (code t) = Inr v2"
    "dict_get (dates_debut_tard st) (code t) = Inr v3"
    "dict_get (dates_fin_tard st) (code t) = Inr v4"
    unfolding sauvegarder_tache_def by (auto simp: Let_def split: sum.splits)
  then have m: "debut_tot st (code t) = Some v1" "fin_tot st (code t) = Some v2"
    "debut_tard st (code t) = Some v3" "fin_tard st (code t) = Some v4"
    by (simp_all add: dict_get_Inr debut_tot_def fin_tot_def debut_tard_def fin_tard_def)
  from assms v m show ?thesis
    by (auto simp: sauvegarder_tache_def sauvegarde_de_def save_def Let_def split: sum.splits)
qed

lemma sauvegarder_boucle_gen:
  "sauvegarder_boucle p b st xs = (None, ys, b') \<Longrightarrow> ys = map (sauvegarde_de p st) xs"
proof (induction xs arbitrary: ys b)
  case Nil
  then show ?case by simp
next
  case (Cons x xs)
  from Cons.prems obtain x' b1 ys' where a: "sauvegarder_tache p b st x = (None, x', b1)"
    "sauvegarder_boucle p b1 st xs = (None, ys', b')" "ys = x' # ys'"
    by (auto split: prod.splits option.splits)
  from sauvegarder_tache_gen[OF a(1)] Cons.IH[OF a(2)] a(3) show ?case by simp
qed

subsection \<open>The whole run\<close>

text \<open>
  The task that a run stores for a task, for four functions from codes to dates. The
  code is the one that \<open>Tache.save\<close> leaves on the object.
\<close>

definition resultat ::
  "plateforme \<Rightarrow> base \<Rightarrow> (string \<Rightarrow> int) \<Rightarrow> (string \<Rightarrow> int) \<Rightarrow> (string \<Rightarrow> int) \<Rightarrow> (string \<Rightarrow> int)
     \<Rightarrow> tache \<Rightarrow> tache" where
  "resultat p b ES EF LS LF t =
     t\<lparr>code := str_upper p (code t),
       date_debut_tot := Some (ES (code t)),
       date_fin_tot := Some (EF (code t)),
       date_debut_tard := Some (LS (code t)),
       date_fin_tard := Some (LF (code t)),
       marge_totale := Some (LS (code t) - ES (code t)),
       marge_libre := Some (if successeurs b t = [] then LS (code t) - ES (code t)
                            else Min ((\<lambda>s. ES (code s)) ` set (successeurs b t)) - EF (code t))\<rparr>"

lemma resultat_champs:
  "date_debut_tot (resultat p b ES EF LS LF t) = Some (ES (code t))"
  "date_fin_tot (resultat p b ES EF LS LF t) = Some (EF (code t))"
  "date_debut_tard (resultat p b ES EF LS LF t) = Some (LS (code t))"
  "date_fin_tard (resultat p b ES EF LS LF t) = Some (LF (code t))"
  "marge_totale (resultat p b ES EF LS LF t) = Some (LS (code t) - ES (code t))"
  "marge_libre (resultat p b ES EF LS LF t) =
     Some (if successeurs b t = [] then LS (code t) - ES (code t)
           else Min ((\<lambda>s. ES (code s)) ` set (successeurs b t)) - EF (code t))"
  by (simp_all add: resultat_def)

text \<open>
  A run that returns \<open>True\<close> on a non-empty list has found no cycle, has gone through the
  two passes, and has stored for every task the dates that the dictionaries hold for its
  code after the backward pass, which are those of the forward pass for the earliest
  dates.
\<close>

lemma calculer_resultat:
  assumes ok: "calculer p b (PertCalculator ts) = (True, st', b')" and ne: "ts \<noteq> []"
  shows "\<exists>st1 st2. \<not> has_circular_dependency b ts \<and>
           calculer_dates_tot b (PertCalculator ts) = Inr st1 \<and>
           calculer_dates_tard b st1 = Inr st2 \<and>
           debut_tot st2 = debut_tot st1 \<and> fin_tot st2 = fin_tot st1 \<and>
           taches st' = map (resultat p b (\<lambda>c. the (debut_tot st2 c)) (\<lambda>c. the (fin_tot st2 c))
                               (\<lambda>c. the (debut_tard st2 c)) (\<lambda>c. the (fin_tard st2 c))) ts"
proof -
  have t0: "taches (PertCalculator ts) = ts" by (simp add: PertCalculator_def)
  from ok ne t0 have essai: "calculer_try p b (PertCalculator ts) = (None, st', b')"
    by (auto simp: calculer_def split: prod.splits option.splits)
  from essai t0 have nc: "\<not> has_circular_dependency b ts"
    by (auto simp: calculer_try_def split: if_splits)
  from essai nc t0 obtain st1 where s1: "calculer_dates_tot b (PertCalculator ts) = Inr st1"
    by (cases "calculer_dates_tot b (PertCalculator ts)") (auto simp: calculer_try_def)
  from essai nc t0 s1 obtain st2 where s2: "calculer_dates_tard b st1 = Inr st2"
    by (cases "calculer_dates_tard b st1") (auto simp: calculer_try_def)
  from essai nc t0 s1 s2 obtain st3 where s3: "calculer_marges b st2 = (None, st3)"
    "sauvegarder_resultats p b st3 = (None, st', b')"
    by (cases "calculer_marges b st2") (auto simp: calculer_try_def split: option.splits)
  from calculer_dates_tot_gen[OF s1] have t1: "taches st1 = ts" unfolding fwd_gen_def by blast
  from calculer_dates_tard_gen[OF s2] t1 have t2: "taches st2 = ts"
    and same: "debut_tot st2 = debut_tot st1" "fin_tot st2 = fin_tot st1"
    by (simp_all add: debut_tot_def fin_tot_def)
  from s3(1) obtain ys where m: "marges_boucle b st2 ts = (None, ys)"
    "st3 = st2\<lparr>taches := ys\<rparr>"
    by (auto simp: calculer_marges_def t2 split: prod.splits)
  from marges_boucle_gen[OF m(1)] have ys: "ys = map (marges_de b st2) ts" .
  from s3(2) obtain zs where sv: "sauvegarder_boucle p b st3 ys = (None, zs, b')"
    "st' = st3\<lparr>taches := zs\<rparr>"
    by (auto simp: sauvegarder_resultats_def m(2) split: prod.splits)
  from sauvegarder_boucle_gen[OF sv(1)] have zs: "zs = map (sauvegarde_de p st3) ys" .
  have maps3: "debut_tot st3 = debut_tot st2" "fin_tot st3 = fin_tot st2"
    "debut_tard st3 = debut_tard st2" "fin_tard st3 = fin_tard st2"
    by (simp_all add: m(2) debut_tot_def fin_tot_def debut_tard_def fin_tard_def)
  have "taches st' = map (resultat p b (\<lambda>c. the (debut_tot st2 c)) (\<lambda>c. the (fin_tot st2 c))
                               (\<lambda>c. the (debut_tard st2 c)) (\<lambda>c. the (fin_tard st2 c))) ts"
    unfolding sv(2) zs ys
    by (simp add: sauvegarde_de_def marges_de_def resultat_def maps3)
  with nc s1 s2 same show ?thesis by blast
qed

section \<open>A successful run on a closed collection\<close>

text \<open>
  The equations of the critical path method on a collection, for four functions from
  codes to dates.
\<close>

definition equations_cpm ::
  "base \<Rightarrow> tache list \<Rightarrow> (string \<Rightarrow> int) \<Rightarrow> (string \<Rightarrow> int) \<Rightarrow> (string \<Rightarrow> int) \<Rightarrow> (string \<Rightarrow> int) \<Rightarrow> bool" where
  "equations_cpm b ts ES EF LS LF \<longleftrightarrow>
     (\<forall>t \<in> set ts.
        ES (code t) = (if dependances b t = [] then 0
                       else Max (EF ` set (get_dependances_codes b t))) \<and>
        EF (code t) = ES (code t) + duree t \<and>
        LF (code t) = (if successeurs b t = [] then EF (code t)
                       else Min ((\<lambda>s. LS (code s)) ` set (successeurs b t))) \<and>
        LS (code t) = LF (code t) - duree t)"


lemma calculer_succes:
  assumes co: "collection b ts" and fe: "fermee b ts" and ac: "acyclique b ts"
    and ne: "ts \<noteq> []" and ok: "calculer p b (PertCalculator ts) = (True, st', b')"
  shows "\<exists>ES EF LS LF. taches st' = map (resultat p b ES EF LS LF) ts \<and>
           equations_cpm b ts ES EF LS LF"
proof -
  let ?C = "set (map code ts)"
  from co have dc: "distinct (map code ts)" by (rule collection_codes)
  have t0: "taches (PertCalculator ts) = ts" "dates_debut_tot (PertCalculator ts) = []"
    "dates_fin_tot (PertCalculator ts) = []"
    by (simp_all add: PertCalculator_def)
  define ES where "ES = (\<lambda>st2 c. the (debut_tot st2 c))"
  define EF where "EF = (\<lambda>st2 c. the (fin_tot st2 c))"
  define LS where "LS = (\<lambda>st2 c. the (debut_tard st2 c))"
  define LF where "LF = (\<lambda>st2 c. the (fin_tard st2 c))"
  from calculer_resultat[OF ok ne] obtain st1 st2 where
    r: "calculer_dates_tot b (PertCalculator ts) = Inr st1"
       "calculer_dates_tard b st1 = Inr st2"
       "taches st' = map (resultat p b (ES st2) (EF st2) (LS st2) (LF st2)) ts"
    unfolding ES_def EF_def LS_def LF_def by blast
  from calculer_dates_tot_correct[OF co fe t0] r(1) obtain ordre where
    s1: "tri_topologique b ts = Inr ordre" "fwd_inv b ts st1 ordre" by auto
  have full: "set ordre = ?C" using tri_topologique_complet[OF co fe ac s1(1)] .
  from s1(2) have t1: "taches st1 = ts" unfolding fwd_inv_def by simp
  from calculer_dates_tard_correct[OF co fe ac ne t1 s1(2) s1(1)] r(2) have
    s2: "bwd_inv b ts st2 (rev ordre)"
        "dates_debut_tot st2 = dates_debut_tot st1" "dates_fin_tot st2 = dates_fin_tot st1"
    by auto
  from s2(1) have t2: "taches st2 = ts" unfolding bwd_inv_def by simp
  have same: "debut_tot st2 = debut_tot st1" "fin_tot st2 = fin_tot st1"
    using s2(2,3) by (simp_all add: debut_tot_def fin_tot_def)
  have fwd2: "fwd_inv b ts st2 ordre"
    using s1(2) t2 unfolding fwd_inv_def same by simp
  have fw: "\<And>t. t \<in> set ts \<Longrightarrow>
      debut_tot st2 (code t) = Some (if get_dependances_codes b t = [] then 0
                               else Max ((\<lambda>d. the (fin_tot st2 d)) ` set (get_dependances_codes b t))) \<and>
      fin_tot st2 (code t) = Some (the (debut_tot st2 (code t)) + duree t)"
  proof -
    fix t assume t: "t \<in> set ts"
    then have "code t \<in> set ordre" using full by simp
    with fwd2 obtain u where "taches_dict ts (code t) = Some u"
      "debut_tot st2 (code t) = Some (if get_dependances_codes b u = [] then 0
                               else Max ((\<lambda>d. the (fin_tot st2 d)) ` set (get_dependances_codes b u)))"
      "fin_tot st2 (code t) = Some (the (debut_tot st2 (code t)) + duree u)"
      unfolding fwd_inv_def by blast
    moreover have "taches_dict ts (code t) = Some t" using taches_dict_distinct[OF dc t] .
    ultimately show "debut_tot st2 (code t) = Some (if get_dependances_codes b t = [] then 0
                               else Max ((\<lambda>d. the (fin_tot st2 d)) ` set (get_dependances_codes b t))) \<and>
      fin_tot st2 (code t) = Some (the (debut_tot st2 (code t)) + duree t)" by simp
  qed
  have bw: "\<And>t. t \<in> set ts \<Longrightarrow>
      fin_tard st2 (code t) = Some (if successeurs b t = [] then the (fin_tot st2 (code t))
                              else Min ((\<lambda>s. the (debut_tard st2 (code s))) ` set (successeurs b t))) \<and>
      debut_tard st2 (code t) = Some (the (fin_tard st2 (code t)) - duree t)"
  proof -
    fix t assume t: "t \<in> set ts"
    then have "code t \<in> set (rev ordre)" using full by simp
    with s2(1) obtain u where "taches_dict ts (code t) = Some u"
      "fin_tard st2 (code t) = Some (if successeurs b u = [] then the (fin_tot st2 (code t))
                              else Min ((\<lambda>s. the (debut_tard st2 (code s))) ` set (successeurs b u)))"
      "debut_tard st2 (code t) = Some (the (fin_tard st2 (code t)) - duree u)"
      unfolding bwd_inv_def by blast
    moreover have "taches_dict ts (code t) = Some t" using taches_dict_distinct[OF dc t] .
    ultimately show "fin_tard st2 (code t) = Some (if successeurs b t = [] then the (fin_tot st2 (code t))
                              else Min ((\<lambda>s. the (debut_tard st2 (code s))) ` set (successeurs b t))) \<and>
      debut_tard st2 (code t) = Some (the (fin_tard st2 (code t)) - duree t)" by simp
  qed
  have eqs: "equations_cpm b ts (ES st2) (EF st2) (LS st2) (LF st2)"
    unfolding equations_cpm_def ES_def EF_def LS_def LF_def
    using fw bw by (simp add: image_image dependances_vide)
  with r(3) show ?thesis by blast
qed

section \<open>The depth-first search finds every cycle\<close>

text \<open>
  \<open>arcs\<close> is the graph that the search walks: from a code to the dependencies that
  \<open>taches_dict\<close> gives for it. The invariant of the search: the recursion stack is part of
  the visited set, and the visited codes that have left the stack have all their
  dependencies among themselves and lie on no cycle.
\<close>

definition arcs :: "base \<Rightarrow> tache list \<Rightarrow> (string \<times> string) set" where
  "arcs b ts = {(c, d). d \<in> deps_of b ts c}"

lemma arcs_ferme:
  assumes "\<forall>x \<in> F. deps_of b ts x \<subseteq> F" and "(x, y) \<in> (arcs b ts)\<^sup>+" and "x \<in> F"
  shows "y \<in> F"
  using assms(2,3,1)
  by (induction rule: trancl_induct) (auto simp: arcs_def)

definition dfs_inv :: "base \<Rightarrow> tache list \<Rightarrow> string set \<Rightarrow> string set \<Rightarrow> bool" where
  "dfs_inv b ts v r \<longleftrightarrow>
     r \<subseteq> v \<and> (\<forall>x \<in> v - r. deps_of b ts x \<subseteq> v - r \<and> (x, x) \<notin> (arcs b ts)\<^sup>+)"

lemma dfs_inv_termine:
  assumes inv: "dfs_inv b ts v2 (insert c r)" and cv: "c \<in> v2"
    and deps: "deps_of b ts c \<subseteq> v2 - insert c r"
  shows "dfs_inv b ts v2 (insert c r - {c})"
proof -
  let ?F = "v2 - insert c r"
  from inv have closed: "\<forall>x \<in> ?F. deps_of b ts x \<subseteq> ?F"
    and acyc: "\<forall>x \<in> ?F. (x, x) \<notin> (arcs b ts)\<^sup>+" and sub: "insert c r \<subseteq> v2"
    unfolding dfs_inv_def by auto
  have cc: "(c, c) \<notin> (arcs b ts)\<^sup>+"
  proof
    assume "(c, c) \<in> (arcs b ts)\<^sup>+"
    then obtain d where d: "(c, d) \<in> arcs b ts" "(d, c) \<in> (arcs b ts)\<^sup>*"
      by (auto dest: tranclD)
    from d(1) deps have dF: "d \<in> ?F" by (auto simp: arcs_def)
    from d(2) have "d = c \<or> (d, c) \<in> (arcs b ts)\<^sup>+" by (auto simp: rtrancl_eq_or_trancl)
    then have "c \<in> ?F" using dF arcs_ferme[OF closed _ dF] by auto
    then show False by simp
  qed
  have eq: "v2 - (insert c r - {c}) = insert c ?F" using cv by auto
  show ?thesis
    unfolding dfs_inv_def eq
    using closed acyc sub cc deps by auto
qed

lemma dfs_complet:
  "dfs_inv b ts (fst vr) (snd vr) \<Longrightarrow> c \<notin> fst vr \<Longrightarrow> \<not> fst (dfs b ts c vr) \<Longrightarrow>
     dfs_inv b ts (fst (snd (dfs b ts c vr))) (snd (snd (dfs b ts c vr))) \<and>
     snd (snd (dfs b ts c vr)) = snd vr \<and>
     fst vr - snd vr \<subseteq> fst (snd (dfs b ts c vr)) - snd vr \<and>
     c \<in> fst (snd (dfs b ts c vr)) - snd vr"
  "dfs_inv b ts (fst vr) (snd vr) \<Longrightarrow> \<not> fst (dfs_deps b ts ds vr) \<Longrightarrow>
     dfs_inv b ts (fst (snd (dfs_deps b ts ds vr))) (snd (snd (dfs_deps b ts ds vr))) \<and>
     snd (snd (dfs_deps b ts ds vr)) = snd vr \<and>
     fst vr - snd vr \<subseteq> fst (snd (dfs_deps b ts ds vr)) - snd vr \<and>
     set ds \<subseteq> fst (snd (dfs_deps b ts ds vr)) - snd vr"
proof (induction b ts c vr and b ts ds vr rule: dfs_dfs_deps.induct)
  case (1 b ts c visited rec_stack)
  from 1(2) have inv: "dfs_inv b ts visited rec_stack" by simp
  from 1(3) have cv: "c \<notin> visited" by simp
  from inv cv have cr: "c \<notin> rec_stack" unfolding dfs_inv_def by auto
  have F: "insert c visited - insert c rec_stack = visited - rec_stack"
    using cv by auto
  have inv1: "dfs_inv b ts (insert c visited) (insert c rec_stack)"
    using inv unfolding dfs_inv_def F by auto
  show ?case
  proof (cases "taches_dict ts c")
    case None
    then have d: "deps_of b ts c = {}" by (simp add: deps_of_def)
    have "dfs_inv b ts (insert c visited) (insert c rec_stack - {c})"
      by (rule dfs_inv_termine[OF inv1]) (simp_all add: d)
    with None cr show ?thesis by auto
  next
    case (Some t)
    let ?res = "dfs_deps b ts (get_dependances_codes b t) (insert c visited, insert c rec_stack)"
    from Some 1(4) have nf: "\<not> fst ?res" by (auto simp: Let_def split: if_splits)
    have p1: "dfs_inv b ts (fst (insert c visited, insert c rec_stack))
        (snd (insert c visited, insert c rec_stack))" using inv1 by simp
    from 1(1)[OF Some p1 nf]
    have IH: "dfs_inv b ts (fst (snd ?res)) (snd (snd ?res))"
      "snd (snd ?res) = insert c rec_stack"
      "insert c visited - insert c rec_stack \<subseteq> fst (snd ?res) - insert c rec_stack"
      "set (get_dependances_codes b t) \<subseteq> fst (snd ?res) - insert c rec_stack"
      unfolding fst_conv snd_conv by blast+
    from IH(1) IH(2) have "c \<in> fst (snd ?res)" unfolding dfs_inv_def by auto
    moreover have "deps_of b ts c = set (get_dependances_codes b t)" using Some by (simp add: deps_of_def)
    ultimately have "dfs_inv b ts (fst (snd ?res)) (insert c rec_stack - {c})"
      using IH by (intro dfs_inv_termine) simp_all
    moreover have "dfs b ts c (visited, rec_stack) = (False, fst (snd ?res), snd (snd ?res) - {c})"
      using Some nf by (simp add: Let_def)
    ultimately show ?thesis
      using IH cr \<open>c \<in> fst (snd ?res)\<close> F by auto
  qed
next
  case (2 b ts visited rec_stack)
  then show ?case by simp
next
  case (3 b ts dep deps visited rec_stack)
  from 3(4) have inv: "dfs_inv b ts visited rec_stack" by simp
  show ?case
  proof (cases "dep \<notin> visited")
    case True
    let ?res = "dfs b ts dep (visited, rec_stack)"
    from True 3(5) have nf: "\<not> fst ?res" by (auto simp: Let_def split: if_splits)
    have p0: "dfs_inv b ts (fst (visited, rec_stack)) (snd (visited, rec_stack))"
      "dep \<notin> fst (visited, rec_stack)" using inv True by simp_all
    from 3(1)[OF True p0 nf]
    have a: "dfs_inv b ts (fst (snd ?res)) (snd (snd ?res))" "snd (snd ?res) = rec_stack"
      "visited - rec_stack \<subseteq> fst (snd ?res) - rec_stack" "dep \<in> fst (snd ?res) - rec_stack"
      unfolding fst_conv snd_conv by blast+
    have eq: "dfs_deps b ts (dep # deps) (visited, rec_stack) = dfs_deps b ts deps (snd ?res)"
      using True nf by (simp add: Let_def)
    with 3(5) have nf2: "\<not> fst (dfs_deps b ts deps (snd ?res))" by simp
    from 3(2)[OF True refl nf a(1) nf2]
    have b: "dfs_inv b ts (fst (snd (dfs_deps b ts deps (snd ?res))))
               (snd (snd (dfs_deps b ts deps (snd ?res))))"
      "snd (snd (dfs_deps b ts deps (snd ?res))) = snd (snd ?res)"
      "fst (snd ?res) - snd (snd ?res) \<subseteq> fst (snd (dfs_deps b ts deps (snd ?res))) - snd (snd ?res)"
      "set deps \<subseteq> fst (snd (dfs_deps b ts deps (snd ?res))) - snd (snd ?res)"
      by blast+
    show ?thesis unfolding eq using a b by auto
  next
    case False
    with 3(5) have nr: "dep \<notin> rec_stack" by (auto split: if_splits)
    have eq: "dfs_deps b ts (dep # deps) (visited, rec_stack) = dfs_deps b ts deps (visited, rec_stack)"
      using False nr by simp
    with 3(5) have nf2: "\<not> fst (dfs_deps b ts deps (visited, rec_stack))" by simp
    have p0: "dfs_inv b ts (fst (visited, rec_stack)) (snd (visited, rec_stack))"
      using inv by simp
    from 3(3)[OF False nr p0 nf2]
    have b: "dfs_inv b ts (fst (snd (dfs_deps b ts deps (visited, rec_stack))))
               (snd (snd (dfs_deps b ts deps (visited, rec_stack))))"
      "snd (snd (dfs_deps b ts deps (visited, rec_stack))) = rec_stack"
      "visited - rec_stack \<subseteq> fst (snd (dfs_deps b ts deps (visited, rec_stack))) - rec_stack"
      "set deps \<subseteq> fst (snd (dfs_deps b ts deps (visited, rec_stack))) - rec_stack"
      unfolding fst_conv snd_conv by blast+
    show ?thesis unfolding eq using b False nr by auto
  qed
qed

lemma dfs_taches_complet:
  "dfs_inv b ts v {} \<Longrightarrow> \<not> dfs_taches b ts xs (v, {}) \<Longrightarrow>
   \<exists>v'. dfs_inv b ts v' {} \<and> v \<subseteq> v' \<and> code ` set xs \<subseteq> v'"
proof (induction xs arbitrary: v)
  case Nil
  then show ?case by auto
next
  case (Cons t xs)
  show ?case
  proof (cases "code t \<notin> v")
    case True
    let ?res = "dfs b ts (code t) (v, {})"
    from True Cons.prems(2) have nf: "\<not> fst ?res" by (auto simp: Let_def split: if_splits)
    have p0: "dfs_inv b ts (fst (v, {})) (snd (v, {}))" "code t \<notin> fst (v, {})"
      using Cons.prems(1) True by simp_all
    from dfs_complet(1)[OF p0 nf]
    have a: "dfs_inv b ts (fst (snd ?res)) (snd (snd ?res))" "snd (snd ?res) = {}"
      "v - {} \<subseteq> fst (snd ?res) - {}" "code t \<in> fst (snd ?res) - {}"
      unfolding fst_conv snd_conv by blast+
    have sr: "snd ?res = (fst (snd ?res), {})" using a(2) by (metis prod.collapse)
    have "dfs_taches b ts (t # xs) (v, {}) = dfs_taches b ts xs (fst (snd ?res), {})"
      using True nf sr by (simp add: Let_def)
    with Cons.prems(2) have nf2: "\<not> dfs_taches b ts xs (fst (snd ?res), {})" by simp
    from a(1) a(2) have "dfs_inv b ts (fst (snd ?res)) {}" by simp
    from Cons.IH[OF this nf2] obtain v' where
      "dfs_inv b ts v' {}" "fst (snd ?res) \<subseteq> v'" "code ` set xs \<subseteq> v'" by blast
    with a show ?thesis by (intro exI[of _ v']) auto
  next
    case False
    with Cons.prems(2) have "\<not> dfs_taches b ts xs (v, {})" by simp
    from Cons.IH[OF Cons.prems(1) this] False show ?thesis by auto
  qed
qed

lemma arcs_dep_rel: "arcs b ts \<subseteq> (dep_rel b ts)\<inverse>"
proof
  fix p assume "p \<in> arcs b ts"
  then obtain c d t where "p = (c, d)" "taches_dict ts c = Some t" "d \<in> set (get_dependances_codes b t)"
    by (auto simp: arcs_def deps_of_def split: option.splits)
  moreover from this have "t \<in> set ts" "code t = c" using taches_dict_SomeD by auto
  ultimately show "p \<in> (dep_rel b ts)\<inverse>" unfolding dep_rel_def by auto
qed

lemma arcs_dep_rel_distinct: "distinct (map code ts) \<Longrightarrow> arcs b ts = (dep_rel b ts)\<inverse>"
proof
  show "arcs b ts \<subseteq> (dep_rel b ts)\<inverse>" by (rule arcs_dep_rel)
next
  assume dc: "distinct (map code ts)"
  show "(dep_rel b ts)\<inverse> \<subseteq> arcs b ts"
  proof
    fix p assume "p \<in> (dep_rel b ts)\<inverse>"
    then obtain t d where "t \<in> set ts" "d \<in> set (get_dependances_codes b t)" "p = (code t, d)"
      unfolding dep_rel_def by auto
    then show "p \<in> arcs b ts"
      using deps_of_code[OF dc] by (auto simp: arcs_def)
  qed
qed

lemma has_circular_dependency_complet:
  assumes dc: "distinct (map code ts)" and nc: "\<not> has_circular_dependency b ts"
  shows "acyclique b ts"
proof -
  have "dfs_inv b ts {} {}" by (simp add: dfs_inv_def)
  from dfs_taches_complet[OF this] nc obtain v' where
    v': "dfs_inv b ts v' {}" "code ` set ts \<subseteq> v'"
    unfolding has_circular_dependency_def by blast
  have "acyclic (arcs b ts)"
    unfolding acyclic_def
  proof (intro allI notI)
    fix x assume c: "(x, x) \<in> (arcs b ts)\<^sup>+"
    then obtain y where "(x, y) \<in> arcs b ts" by (auto dest: tranclD)
    then have "taches_dict ts x \<noteq> None"
      by (auto simp: arcs_def deps_of_def split: option.splits)
    then have "x \<in> code ` set ts" using taches_dict_SomeD by force
    with v' c show False unfolding dfs_inv_def by auto
  qed
  then show ?thesis
    unfolding acyclique_def arcs_dep_rel_distinct[OF dc] by simp
qed

section \<open>Consequences of the equations\<close>




text \<open>
  The values that a field takes on the stored tasks whose input task is in a given list
  of tasks of the collection, read by position.
\<close>

lemma valeurs_par_indice:
  assumes r: "taches st' = map (resultat p b ES EF LS LF) ts" and sub: "set D \<subseteq> set ts"
  shows "{f. \<exists>j < length ts. ts ! j \<in> set D \<and> date_fin_tot (taches st' ! j) = Some f}
           = (\<lambda>s. EF (code s)) ` set D"
    and "{f. \<exists>j < length ts. ts ! j \<in> set D \<and> date_debut_tard (taches st' ! j) = Some f}
           = (\<lambda>s. LS (code s)) ` set D"
    and "{f. \<exists>j < length ts. ts ! j \<in> set D \<and> date_debut_tot (taches st' ! j) = Some f}
           = (\<lambda>s. ES (code s)) ` set D"
proof -
  have n: "\<And>j. j < length ts \<Longrightarrow> taches st' ! j = resultat p b ES EF LS LF (ts ! j)"
    using r by simp
  have idx: "\<And>s. s \<in> set D \<Longrightarrow> \<exists>j < length ts. ts ! j = s"
    using sub by (metis in_set_conv_nth subsetD)
  show "{f. \<exists>j < length ts. ts ! j \<in> set D \<and> date_fin_tot (taches st' ! j) = Some f}
           = (\<lambda>s. EF (code s)) ` set D"
  proof (intro set_eqI iffI)
    fix f assume "f \<in> {f. \<exists>j < length ts. ts ! j \<in> set D \<and> date_fin_tot (taches st' ! j) = Some f}"
    then obtain j where "j < length ts" "ts ! j \<in> set D" "date_fin_tot (taches st' ! j) = Some f"
      by blast
    then show "f \<in> (\<lambda>s. EF (code s)) ` set D"
      by (auto simp: n resultat_champs)
  next
    fix f assume "f \<in> (\<lambda>s. EF (code s)) ` set D"
    then obtain s where s: "s \<in> set D" "f = EF (code s)" by blast
    from idx[OF s(1)] obtain j where "j < length ts" "ts ! j = s" by blast
    with s show "f \<in> {f. \<exists>j < length ts. ts ! j \<in> set D \<and> date_fin_tot (taches st' ! j) = Some f}"
      by (auto simp: n resultat_champs)
  qed
  show "{f. \<exists>j < length ts. ts ! j \<in> set D \<and> date_debut_tard (taches st' ! j) = Some f}
           = (\<lambda>s. LS (code s)) ` set D"
  proof (intro set_eqI iffI)
    fix f assume "f \<in> {f. \<exists>j < length ts. ts ! j \<in> set D \<and> date_debut_tard (taches st' ! j) = Some f}"
    then obtain j where "j < length ts" "ts ! j \<in> set D" "date_debut_tard (taches st' ! j) = Some f"
      by blast
    then show "f \<in> (\<lambda>s. LS (code s)) ` set D"
      by (auto simp: n resultat_champs)
  next
    fix f assume "f \<in> (\<lambda>s. LS (code s)) ` set D"
    then obtain s where s: "s \<in> set D" "f = LS (code s)" by blast
    from idx[OF s(1)] obtain j where "j < length ts" "ts ! j = s" by blast
    with s show "f \<in> {f. \<exists>j < length ts. ts ! j \<in> set D \<and> date_debut_tard (taches st' ! j) = Some f}"
      by (auto simp: n resultat_champs)
  qed
  show "{f. \<exists>j < length ts. ts ! j \<in> set D \<and> date_debut_tot (taches st' ! j) = Some f}
           = (\<lambda>s. ES (code s)) ` set D"
  proof (intro set_eqI iffI)
    fix f assume "f \<in> {f. \<exists>j < length ts. ts ! j \<in> set D \<and> date_debut_tot (taches st' ! j) = Some f}"
    then obtain j where "j < length ts" "ts ! j \<in> set D" "date_debut_tot (taches st' ! j) = Some f"
      by blast
    then show "f \<in> (\<lambda>s. ES (code s)) ` set D"
      by (auto simp: n resultat_champs)
  next
    fix f assume "f \<in> (\<lambda>s. ES (code s)) ` set D"
    then obtain s where s: "s \<in> set D" "f = ES (code s)" by blast
    from idx[OF s(1)] obtain j where "j < length ts" "ts ! j = s" by blast
    with s show "f \<in> {f. \<exists>j < length ts. ts ! j \<in> set D \<and> date_debut_tot (taches st' ! j) = Some f}"
      by (auto simp: n resultat_champs)
  qed
qed

section \<open>Example databases\<close>

text \<open>
  A platform for the examples: \<open>upper\<close> on the letters a to z, and a \<open>Model.save\<close> that
  replaces the row that has the key of the task and never raises.
\<close>

definition upper_char :: "char \<Rightarrow> char" where
  "upper_char c =
     (let n = (of_char c :: nat)
      in if 97 \<le> n \<and> n \<le> 122 then char_of (n - 32) else c)"

definition ecrire :: "base \<Rightarrow> tache \<Rightarrow> error + base" where
  "ecrire b t = Inr (b\<lparr>lignes := map (\<lambda>r. if pk r = pk t then t else r) (lignes b)\<rparr>)"

definition plateforme_exemple :: plateforme where
  "plateforme_exemple = \<lparr>str_upper = map upper_char, model_save = ecrire\<rparr>"

text \<open>
  A row as it is before any run. In the examples the rows of a table are listed so that
  the tasks of a project, the dependencies of a task and the rows that depend on a task
  come in the order of their codes, as the queries return them.
\<close>

definition ligne :: "nat \<Rightarrow> nat \<Rightarrow> string \<Rightarrow> int \<Rightarrow> tache" where
  "ligne k pr c d =
     \<lparr>pk = k, projet = pr, code = c, duree = d, date_debut_tot = None, date_fin_tot = None,
      date_debut_tard = None, date_fin_tard = None, marge_totale = None, marge_libre = None\<rparr>"

text \<open>
  The example of the specification: two parallel tasks A (5 days) and B (3 days) feeding
  a final task D (2 days), alone in the database.
\<close>

definition base_parallele :: base where
  "base_parallele =
     \<lparr>lignes = [ligne 1 1 ''A'' 5, ligne 2 1 ''B'' 3, ligne 3 1 ''D'' 2],
      liens = [(3, 1), (3, 2)]\<rparr>"

definition ex_parallele :: "tache list" where
  "ex_parallele = taches_du_projet base_parallele 1"

text \<open>The cycle of the specification: A depends on B and B depends on A.\<close>

definition base_cycle :: base where
  "base_cycle =
     \<lparr>lignes = [ligne 1 1 ''A'' 5, ligne 2 1 ''B'' 3], liens = [(1, 2), (2, 1)]\<rparr>"

definition ex_cycle :: "tache list" where
  "ex_cycle = taches_du_projet base_cycle 1"

text \<open>The same cycle with a third task C that depends on nothing.\<close>

definition base_cycle_et_tache :: base where
  "base_cycle_et_tache =
     \<lparr>lignes = [ligne 1 1 ''A'' 5, ligne 2 1 ''B'' 3, ligne 3 1 ''C'' 1],
      liens = [(1, 2), (2, 1)]\<rparr>"

definition ex_cycle_et_tache :: "tache list" where
  "ex_cycle_et_tache = taches_du_projet base_cycle_et_tache 1"

text \<open>
  Project 1 has the tasks A (2 days) and B (3 days); B depends on A and on the task X of
  project 2, as the administration site allows.
\<close>

definition base_dependance_absente :: base where
  "base_dependance_absente =
     \<lparr>lignes = [ligne 1 1 ''A'' 2, ligne 2 1 ''B'' 3, ligne 3 2 ''X'' 4],
      liens = [(2, 1), (2, 3)]\<rparr>"

definition ex_dependance_absente :: "tache list" where
  "ex_dependance_absente = taches_du_projet base_dependance_absente 1"



text \<open>
  Project 1 has the tasks A (2 days) and B (1 day); A depends on the task X of project 2
  and B depends on A.
\<close>

definition base_non_emise :: base where
  "base_non_emise =
     \<lparr>lignes = [ligne 1 1 ''A'' 2, ligne 2 1 ''B'' 1, ligne 3 2 ''X'' 4],
      liens = [(1, 3), (2, 1)]\<rparr>"

definition ex_non_emise :: "tache list" where
  "ex_non_emise = taches_du_projet base_non_emise 1"

text \<open>
  Project 1 has the tasks A (2 days) and C (1 day), which depend on nothing. The task of
  project 2 that also has the code C depends on A; its row holds the earliest start 4
  of a run on project 2.
\<close>

definition base_successeur_externe :: base where
  "base_successeur_externe =
     \<lparr>lignes = [ligne 1 1 ''A'' 2, ligne 2 1 ''C'' 1,
                (ligne 3 2 ''C'' 1)\<lparr>date_debut_tot := Some 4\<rparr>],
      liens = [(3, 1)]\<rparr>"

definition ex_successeur_externe :: "tache list" where
  "ex_successeur_externe = taches_du_projet base_successeur_externe 1"

text \<open>A single task of duration \<open>-3\<close>, and a task of duration 0 that depends on one of duration \<open>-3\<close>.\<close>

definition base_duree_negative :: base where
  "base_duree_negative = \<lparr>lignes = [ligne 1 1 ''A'' (- 3)], liens = []\<rparr>"

definition ex_duree_negative :: "tache list" where
  "ex_duree_negative = taches_du_projet base_duree_negative 1"

definition base_durees_nulles :: base where
  "base_durees_nulles =
     \<lparr>lignes = [ligne 1 1 ''A'' (- 3), ligne 2 1 ''B'' 0], liens = [(2, 1)]\<rparr>"

definition ex_durees_nulles :: "tache list" where
  "ex_durees_nulles = taches_du_projet base_durees_nulles 1"

text \<open>
  Project 1 has the tasks A (1 day), B (5 days, after A), C (1 day, after B) and D (1 day,
  after A and C). The task of project 2 that also has the code D depends on A.
\<close>

definition base_file_avancee :: base where
  "base_file_avancee =
     \<lparr>lignes = [ligne 1 1 ''A'' 1, ligne 2 1 ''B'' 5, ligne 3 1 ''C'' 1, ligne 4 1 ''D'' 1,
                ligne 5 2 ''D'' 1],
      liens = [(2, 1), (3, 2), (4, 1), (4, 3), (5, 1)]\<rparr>"

definition ex_file_avancee :: "tache list" where
  "ex_file_avancee = taches_du_projet base_file_avancee 1"

text \<open>
  Project 1 has the single task X; the task B of project 2 depends on it. And project 1
  has the tasks A and B, where B depends on the task X of project 2, which depends on A.
\<close>

definition base_dependant_externe :: base where
  "base_dependant_externe =
     \<lparr>lignes = [ligne 1 1 ''X'' 1, ligne 2 2 ''B'' 1], liens = [(2, 1)]\<rparr>"

definition ex_dependant_externe :: "tache list" where
  "ex_dependant_externe = taches_du_projet base_dependant_externe 1"

definition base_detour_externe :: base where
  "base_detour_externe =
     \<lparr>lignes = [ligne 1 1 ''A'' 1, ligne 2 1 ''B'' 1, ligne 3 2 ''X'' 1],
      liens = [(2, 3), (3, 1)]\<rparr>"

definition ex_detour_externe :: "tache list" where
  "ex_detour_externe = taches_du_projet base_detour_externe 1"

text \<open>
  Project 1 has the tasks A (2 days) and C (1 day), which depend on nothing. The task of
  project 2 that has the code C depends on A, and the task of project 3 that has the code
  A depends on C.
\<close>

definition base_sans_finale :: base where
  "base_sans_finale =
     \<lparr>lignes = [ligne 1 1 ''A'' 2, ligne 2 1 ''C'' 1, ligne 3 2 ''C'' 1, ligne 4 3 ''A'' 1],
      liens = [(3, 1), (4, 2)]\<rparr>"

definition ex_sans_finale :: "tache list" where
  "ex_sans_finale = taches_du_projet base_sans_finale 1"

text \<open>The calculator that the run on each example leaves.\<close>

definition res_parallele :: pert_calculator where
  "res_parallele =
     fst (snd (calculer plateforme_exemple base_parallele (PertCalculator ex_parallele)))"

definition res_dependance_absente :: pert_calculator where
  "res_dependance_absente =
     fst (snd (calculer plateforme_exemple base_dependance_absente
                 (PertCalculator ex_dependance_absente)))"


definition res_non_emise :: pert_calculator where
  "res_non_emise =
     fst (snd (calculer plateforme_exemple base_non_emise (PertCalculator ex_non_emise)))"

definition res_successeur_externe :: pert_calculator where
  "res_successeur_externe =
     fst (snd (calculer plateforme_exemple base_successeur_externe
                 (PertCalculator ex_successeur_externe)))"

definition res_file_avancee :: pert_calculator where
  "res_file_avancee =
     fst (snd (calculer plateforme_exemple base_file_avancee (PertCalculator ex_file_avancee)))"

definition res_duree_negative :: pert_calculator where
  "res_duree_negative =
     fst (snd (calculer plateforme_exemple base_duree_negative
                 (PertCalculator ex_duree_negative)))"

definition res_durees_nulles :: pert_calculator where
  "res_durees_nulles =
     fst (snd (calculer plateforme_exemple base_durees_nulles
                 (PertCalculator ex_durees_nulles)))"

text \<open>
  A second platform, whose \<open>Model.save\<close> refuses a value that does not fit a signed
  64-bit column, and a project in which B, of the largest duration that such a column
  holds, depends on A (1 day).
\<close>

definition ecrire_borne :: "base \<Rightarrow> tache \<Rightarrow> error + base" where
  "ecrire_borne b t =
     (if list_all (\<lambda>v. case v of None \<Rightarrow> True | Some n \<Rightarrow> - (2 ^ 63) \<le> n \<and> n < 2 ^ 63)
           [date_debut_tot t, date_fin_tot t, date_debut_tard t, date_fin_tard t,
            marge_totale t, marge_libre t]
      then ecrire b t
      else Inl (OverflowError ''integer out of range''))"

definition plateforme_bornee :: plateforme where
  "plateforme_bornee = \<lparr>str_upper = map upper_char, model_save = ecrire_borne\<rparr>"

definition base_depassement :: base where
  "base_depassement =
     \<lparr>lignes = [ligne 1 1 ''A'' 1, ligne 2 1 ''B'' (2 ^ 63 - 1)], liens = [(2, 1)]\<rparr>"

definition ex_depassement :: "tache list" where
  "ex_depassement = taches_du_projet base_depassement 1"

definition res_sans_finale :: pert_calculator where
  "res_sans_finale =
     fst (snd (calculer plateforme_exemple base_sans_finale (PertCalculator ex_sans_finale)))"

section \<open>The runs on the examples\<close>

lemma ex_parallele_bien_forme:
  "collection base_parallele ex_parallele" "fermee base_parallele ex_parallele"
  by code_simp+

lemma ex_parallele_acyclique: "acyclique base_parallele ex_parallele"
proof (rule has_circular_dependency_complet)
  show "distinct (map code ex_parallele)" by code_simp
  show "\<not> has_circular_dependency base_parallele ex_parallele" by code_simp
qed

lemma calculer_ex_parallele:
  "calculer plateforme_exemple base_parallele (PertCalculator ex_parallele)
     = (True, res_parallele,
        snd (snd (calculer plateforme_exemple base_parallele (PertCalculator ex_parallele))))"
  by code_simp

lemma res_parallele_valeurs:
  "map date_debut_tot (taches res_parallele) = [Some 0, Some 0, Some 5]"
  "map date_fin_tot (taches res_parallele) = [Some 5, Some 3, Some 7]"
  "map date_debut_tard (taches res_parallele) = [Some 0, Some 2, Some 5]"
  "map date_fin_tard (taches res_parallele) = [Some 5, Some 5, Some 7]"
  "map marge_totale (taches res_parallele) = [Some 0, Some 2, Some 0]"
  "map marge_libre (taches res_parallele) = [Some 0, Some 2, Some 0]"
  by code_simp+

section \<open>The forward pass (C1)\<close>

text \<open>
  The claim as it is stated fails. In project 1, B (3 days) depends on A (2 days) and on
  the task X of another project. The collection is acyclic and the run returns \<open>True\<close>;
  A ends at 2, and B, which depends on A, is stored with the earliest start 0, and with
  the earliest finish 0 although it lasts 3 days: the sort never emits B, whose in-degree
  counts the row X that is never processed.
\<close>

theorem passe_avant_dependance_externe:
  "acyclique base_dependance_absente ex_dependance_absente \<and>
   calculer plateforme_exemple base_dependance_absente (PertCalculator ex_dependance_absente)
     = (True, res_dependance_absente,
        snd (snd (calculer plateforme_exemple base_dependance_absente
                    (PertCalculator ex_dependance_absente)))) \<and>
   ex_dependance_absente ! 0 \<in> set (dependances base_dependance_absente (ex_dependance_absente ! 1)) \<and>
   date_fin_tot (taches res_dependance_absente ! 0) = Some 2 \<and>
   date_debut_tot (taches res_dependance_absente ! 1) = Some 0 \<and>
   date_fin_tot (taches res_dependance_absente ! 1) = Some 0 \<and>
   duree (ex_dependance_absente ! 1) = 3"
proof -
  have "acyclique base_dependance_absente ex_dependance_absente"
  proof (rule has_circular_dependency_complet)
    show "distinct (map code ex_dependance_absente)" by code_simp
    show "\<not> has_circular_dependency base_dependance_absente ex_dependance_absente"
      by code_simp
  qed
  moreover have
    "calculer plateforme_exemple base_dependance_absente (PertCalculator ex_dependance_absente)
     = (True, res_dependance_absente,
        snd (snd (calculer plateforme_exemple base_dependance_absente
                    (PertCalculator ex_dependance_absente))))"
    by code_simp
  moreover have
    "ex_dependance_absente ! 0 \<in> set (dependances base_dependance_absente (ex_dependance_absente ! 1))"
    by code_simp
  moreover have "date_fin_tot (taches res_dependance_absente ! 0) = Some 2"
    "date_debut_tot (taches res_dependance_absente ! 1) = Some 0"
    "date_fin_tot (taches res_dependance_absente ! 1) = Some 0"
    "duree (ex_dependance_absente ! 1) = 3"
    by code_simp+
  ultimately show ?thesis by blast
qed

text \<open>
  The rows that depend on the tasks matter as much as those on which the tasks depend.
  In project 1, D depends on A and C, C on B and B on A; the task of another project that
  has the code D depends on A. Every dependency of a task of project 1 is in project 1,
  there is no cycle and the run returns \<open>True\<close>. When the sort emits A it decrements the
  in-degree of the code D twice, once for each row, so that D is emitted before C: D is
  stored with the earliest start 1, and its dependency C ends at 7.
\<close>

lemma passe_avant_successeur_externe:
  "collection base_file_avancee ex_file_avancee \<and>
   dependances_internes base_file_avancee ex_file_avancee \<and>
   \<not> successeurs_internes base_file_avancee ex_file_avancee \<and>
   \<not> has_circular_dependency base_file_avancee ex_file_avancee \<and>
   fst (calculer plateforme_exemple base_file_avancee (PertCalculator ex_file_avancee)) \<and>
   tri_topologique base_file_avancee ex_file_avancee = Inr [''A'', ''B'', ''D'', ''C''] \<and>
   ex_file_avancee ! 2 \<in> set (dependances base_file_avancee (ex_file_avancee ! 3)) \<and>
   date_fin_tot (taches res_file_avancee ! 2) = Some 7 \<and>
   date_debut_tot (taches res_file_avancee ! 3) = Some 1"
  by code_simp

text \<open>
  Claim C1, as amended. The collection is a list of rows of the database with unique
  codes, and it is closed: every row on which one of its tasks depends and every row that
  depends on one of its tasks is in it. After a successful run of \<open>calculer\<close> on such a
  collection, if it is acyclic, for every task, read by its position \<open>i\<close> in the
  collection: \<open>date_debut_tot\<close> is 0 if the task has no dependencies and otherwise the
  maximum of \<open>date_fin_tot\<close> over the tasks on which it depends, and \<open>date_fin_tot\<close> is
  \<open>date_debut_tot\<close> plus the duration.
\<close>

theorem passe_avant:
  assumes "collection b ts" and "fermee b ts" and "acyclique b ts"
    and "calculer p b (PertCalculator ts) = (True, st', b')" and "i < length ts"
  shows "date_debut_tot (taches st' ! i) =
           Some (if dependances b (ts ! i) = [] then 0
                 else Max {f. \<exists>j < length ts. ts ! j \<in> set (dependances b (ts ! i)) \<and>
                                date_fin_tot (taches st' ! j) = Some f})
         \<and> (\<exists>d. date_debut_tot (taches st' ! i) = Some d \<and>
                 date_fin_tot (taches st' ! i) = Some (d + duree (ts ! i)))"
proof -
  from assms(5) have ne: "ts \<noteq> []" by auto
  from calculer_succes[OF assms(1-3) ne assms(4)] obtain ES EF LS LF where
    r: "taches st' = map (resultat p b ES EF LS LF) ts" and e: "equations_cpm b ts ES EF LS LF"
    by blast
  from assms(5) have ti: "ts ! i \<in> set ts" by simp
  from r assms(5) have n: "taches st' ! i = resultat p b ES EF LS LF (ts ! i)" by simp
  have sub: "set (dependances b (ts ! i)) \<subseteq> set ts" using fermeeD(1)[OF assms(2) ti] .
  have s: "{f. \<exists>j < length ts. ts ! j \<in> set (dependances b (ts ! i)) \<and>
              date_fin_tot (taches st' ! j) = Some f}
           = EF ` set (get_dependances_codes b (ts ! i))"
    using valeurs_par_indice(1)[OF r sub] by (simp add: get_dependances_codes_def image_image)
  from e ti have "ES (code (ts ! i)) =
      (if dependances b (ts ! i) = [] then 0
       else Max (EF ` set (get_dependances_codes b (ts ! i))))"
    and "EF (code (ts ! i)) = ES (code (ts ! i)) + duree (ts ! i)"
    unfolding equations_cpm_def by auto
  then show ?thesis unfolding s n by (simp add: resultat_champs)
qed

theorem passe_avant_witness:
  "collection base_parallele ex_parallele \<and> fermee base_parallele ex_parallele \<and>
   acyclique base_parallele ex_parallele \<and>
   calculer plateforme_exemple base_parallele (PertCalculator ex_parallele)
     = (True, res_parallele,
        snd (snd (calculer plateforme_exemple base_parallele (PertCalculator ex_parallele)))) \<and>
   2 < length ex_parallele \<and>
   date_debut_tot (taches res_parallele ! 2) =
     Some (if dependances base_parallele (ex_parallele ! 2) = [] then 0
           else Max {f. \<exists>j < length ex_parallele.
                      ex_parallele ! j \<in> set (dependances base_parallele (ex_parallele ! 2)) \<and>
                      date_fin_tot (taches res_parallele ! j) = Some f}) \<and>
   (\<exists>d. date_debut_tot (taches res_parallele ! 2) = Some d \<and>
        date_fin_tot (taches res_parallele ! 2) = Some (d + duree (ex_parallele ! 2))) \<and>
   map date_debut_tot (taches res_parallele) = [Some 0, Some 0, Some 5] \<and>
   map date_fin_tot (taches res_parallele) = [Some 5, Some 3, Some 7]"
proof -
  have l: "2 < length ex_parallele" by code_simp
  from passe_avant[OF ex_parallele_bien_forme ex_parallele_acyclique calculer_ex_parallele l]
    ex_parallele_bien_forme ex_parallele_acyclique calculer_ex_parallele l
    res_parallele_valeurs(1,2)
  show ?thesis by blast
qed

section \<open>The backward pass (C2)\<close>

text \<open>
  The claim as it is stated fails. In project 1, A (2 days) depends on the task X of
  another project and B (1 day) depends on A. The collection is acyclic and the run
  returns \<open>True\<close>, but the sort emits neither task, so that the loop over the reversed
  order does nothing: A, whose only successor B has the latest start \<open>-1\<close>, keeps the
  latest finish 0 and the latest start 0 of the initialisation, which is not its latest
  finish minus its 2 days.
\<close>

theorem passe_arriere_non_emise:
  "acyclique base_non_emise ex_non_emise \<and>
   calculer plateforme_exemple base_non_emise (PertCalculator ex_non_emise)
     = (True, res_non_emise,
        snd (snd (calculer plateforme_exemple base_non_emise (PertCalculator ex_non_emise)))) \<and>
   successeurs base_non_emise (ex_non_emise ! 0) = [ex_non_emise ! 1] \<and>
   date_debut_tard (taches res_non_emise ! 1) = Some (- 1) \<and>
   date_fin_tard (taches res_non_emise ! 0) = Some 0 \<and>
   date_debut_tard (taches res_non_emise ! 0) = Some 0 \<and>
   duree (ex_non_emise ! 0) = 2"
proof -
  have "acyclique base_non_emise ex_non_emise"
  proof (rule has_circular_dependency_complet)
    show "distinct (map code ex_non_emise)" by code_simp
    show "\<not> has_circular_dependency base_non_emise ex_non_emise" by code_simp
  qed
  moreover have
    "calculer plateforme_exemple base_non_emise (PertCalculator ex_non_emise)
     = (True, res_non_emise,
        snd (snd (calculer plateforme_exemple base_non_emise (PertCalculator ex_non_emise))))"
    by code_simp
  moreover have "successeurs base_non_emise (ex_non_emise ! 0) = [ex_non_emise ! 1]"
    "date_debut_tard (taches res_non_emise ! 1) = Some (- 1)"
    "date_fin_tard (taches res_non_emise ! 0) = Some 0"
    "date_debut_tard (taches res_non_emise ! 0) = Some 0"
    "duree (ex_non_emise ! 0) = 2"
    by code_simp+
  ultimately show ?thesis by blast
qed

text \<open>
  Claim C2, as amended. After a successful run of \<open>calculer\<close> on an acyclic collection
  that is closed and has unique codes, a task without successors has \<open>date_fin_tard\<close>
  equal to its own \<open>date_fin_tot\<close> (not to the end of the project), a task with
  successors has \<open>date_fin_tard\<close> equal to the minimum of \<open>date_debut_tard\<close> over the
  tasks that depend on it, and in both cases \<open>date_debut_tard\<close> is \<open>date_fin_tard\<close>
  minus the duration.
\<close>

theorem passe_arriere:
  assumes "collection b ts" and "fermee b ts" and "acyclique b ts"
    and "calculer p b (PertCalculator ts) = (True, st', b')" and "i < length ts"
  shows "date_fin_tard (taches st' ! i) =
           (if successeurs b (ts ! i) = [] then date_fin_tot (taches st' ! i)
            else Some (Min {l. \<exists>j < length ts. ts ! j \<in> set (successeurs b (ts ! i)) \<and>
                                 date_debut_tard (taches st' ! j) = Some l}))
         \<and> (\<exists>f. date_fin_tard (taches st' ! i) = Some f \<and>
                 date_debut_tard (taches st' ! i) = Some (f - duree (ts ! i)))"
proof -
  from assms(5) have ne: "ts \<noteq> []" by auto
  from calculer_succes[OF assms(1-3) ne assms(4)] obtain ES EF LS LF where
    r: "taches st' = map (resultat p b ES EF LS LF) ts" and e: "equations_cpm b ts ES EF LS LF"
    by blast
  from assms(5) have ti: "ts ! i \<in> set ts" by simp
  from r assms(5) have n: "taches st' ! i = resultat p b ES EF LS LF (ts ! i)" by simp
  have sub: "set (successeurs b (ts ! i)) \<subseteq> set ts" using fermeeD(2)[OF assms(2) ti] .
  have s: "{l. \<exists>j < length ts. ts ! j \<in> set (successeurs b (ts ! i)) \<and>
              date_debut_tard (taches st' ! j) = Some l}
           = (\<lambda>s. LS (code s)) ` set (successeurs b (ts ! i))"
    using valeurs_par_indice(2)[OF r sub] .
  from e ti have "LF (code (ts ! i)) =
      (if successeurs b (ts ! i) = [] then EF (code (ts ! i))
       else Min ((\<lambda>s. LS (code s)) ` set (successeurs b (ts ! i))))"
    and "LS (code (ts ! i)) = LF (code (ts ! i)) - duree (ts ! i)"
    unfolding equations_cpm_def by auto
  then show ?thesis unfolding s n by (simp add: resultat_champs)
qed

theorem passe_arriere_witness:
  "collection base_parallele ex_parallele \<and> fermee base_parallele ex_parallele \<and>
   acyclique base_parallele ex_parallele \<and>
   calculer plateforme_exemple base_parallele (PertCalculator ex_parallele)
     = (True, res_parallele,
        snd (snd (calculer plateforme_exemple base_parallele (PertCalculator ex_parallele)))) \<and>
   1 < length ex_parallele \<and>
   date_fin_tard (taches res_parallele ! 1) =
     (if successeurs base_parallele (ex_parallele ! 1) = []
      then date_fin_tot (taches res_parallele ! 1)
      else Some (Min {l. \<exists>j < length ex_parallele.
                      ex_parallele ! j \<in> set (successeurs base_parallele (ex_parallele ! 1)) \<and>
                      date_debut_tard (taches res_parallele ! j) = Some l})) \<and>
   (\<exists>f. date_fin_tard (taches res_parallele ! 1) = Some f \<and>
        date_debut_tard (taches res_parallele ! 1) = Some (f - duree (ex_parallele ! 1))) \<and>
   map date_debut_tard (taches res_parallele) = [Some 0, Some 2, Some 5] \<and>
   map date_fin_tard (taches res_parallele) = [Some 5, Some 5, Some 7]"
proof -
  have l: "1 < length ex_parallele" by code_simp
  from passe_arriere[OF ex_parallele_bien_forme ex_parallele_acyclique calculer_ex_parallele l]
    ex_parallele_bien_forme ex_parallele_acyclique calculer_ex_parallele l
    res_parallele_valeurs(3,4)
  show ?thesis by blast
qed

section \<open>Total slack (C4)\<close>


text \<open>
  A row of another project that depends on a task has the same effect. In project 1, A
  (2 days) and C (1 day) depend on nothing, and the task of another project that also has
  the code C depends on A: the run returns \<open>True\<close> and stores the total slack \<open>-2\<close> for A,
  whose latest finish is taken from the latest start of the task C of project 1.
\<close>

lemma marge_negative_successeur_externe:
  "collection base_successeur_externe ex_successeur_externe \<and>
   dependances_internes base_successeur_externe ex_successeur_externe \<and>
   \<not> successeurs_internes base_successeur_externe ex_successeur_externe \<and>
   \<not> has_circular_dependency base_successeur_externe ex_successeur_externe \<and>
   fst (calculer plateforme_exemple base_successeur_externe
          (PertCalculator ex_successeur_externe)) \<and>
   marge_totale (taches res_successeur_externe ! 0) = Some (- 2)"
  by code_simp



section \<open>Free slack (C5)\<close>




section \<open>The critical path (C6)\<close>



text \<open>
  The rows that depend on the tasks matter too. In project 1, A and C depend on nothing;
  a task of another project that has the code C depends on A, and a task of a third
  project that has the code A depends on C. Every dependency of a task of project 1 is in
  project 1 (there is none), the run returns \<open>True\<close>, the total slacks are \<open>-1\<close> and 1,
  and no task is critical.
\<close>

lemma aucune_tache_critique_successeurs_externes:
  "collection base_sans_finale ex_sans_finale \<and>
   dependances_internes base_sans_finale ex_sans_finale \<and>
   \<not> successeurs_internes base_sans_finale ex_sans_finale \<and>
   \<not> has_circular_dependency base_sans_finale ex_sans_finale \<and>
   fst (calculer plateforme_exemple base_sans_finale (PertCalculator ex_sans_finale)) \<and>
   map marge_totale (taches res_sans_finale) = [Some (- 1), Some 1] \<and>
   get_chemin_critique res_sans_finale = Inr []"
  by code_simp



section \<open>Runs that fail without a cycle\<close>

text \<open>
  A row of another project that depends on a task of the collection, and whose code no
  task of the collection has, makes the backward pass raise \<open>KeyError\<close> on that code: the
  run returns \<open>False\<close>. It is so when project 1 has the single task X and a task B of
  another project depends on it, and when B depends on a task X of another project that
  depends on A.
\<close>

lemma dependant_externe_echec:
  "\<not> has_circular_dependency base_dependant_externe ex_dependant_externe \<and>
   fst (calculer_try plateforme_exemple base_dependant_externe
          (PertCalculator ex_dependant_externe)) = Some (KeyError ''B'') \<and>
   \<not> fst (calculer plateforme_exemple base_dependant_externe
            (PertCalculator ex_dependant_externe)) \<and>
   \<not> has_circular_dependency base_detour_externe ex_detour_externe \<and>
   fst (calculer_try plateforme_exemple base_detour_externe
          (PertCalculator ex_detour_externe)) = Some (KeyError ''X'') \<and>
   \<not> fst (calculer plateforme_exemple base_detour_externe (PertCalculator ex_detour_externe))"
  by code_simp

text \<open>
  A write that the database refuses ends the run in the same way, after the rows of the
  tasks before it have been written: B would end at \<open>2 ^ 63\<close>, the run returns \<open>False\<close>,
  the row of A holds its dates and the row of B holds none.
\<close>

lemma sauvegarde_refusee:
  "fst (calculer_try plateforme_bornee base_depassement (PertCalculator ex_depassement))
     = Some (OverflowError ''integer out of range'') \<and>
   \<not> fst (calculer plateforme_bornee base_depassement (PertCalculator ex_depassement)) \<and>
   map date_fin_tot
     (lignes (snd (snd (calculer plateforme_bornee base_depassement
                          (PertCalculator ex_depassement)))))
     = [Some 1, None]"
  by code_simp

section \<open>The topological sort (C9)\<close>

text \<open>
  The second half of the claim fails. In project 1, A depends on a task of another
  project and B depends on A: the sort emits no task at all out of two, and \<open>calculer\<close>
  still returns \<open>True\<close>. On the cycle between A and B the sort also emits nothing, without
  raising, and the forward pass that uses its result returns normally: only the
  depth-first search stops such a run. Neither \<open>_tri_topologique\<close> nor \<open>calculer\<close>
  compares the number of emitted tasks with the number of tasks.
\<close>

theorem tri_incomplet_sans_echec:
  "tri_topologique base_non_emise ex_non_emise = Inr [] \<and> length ex_non_emise = 2 \<and>
   fst (calculer plateforme_exemple base_non_emise (PertCalculator ex_non_emise)) \<and>
   tri_topologique base_cycle ex_cycle = Inr [] \<and> length ex_cycle = 2 \<and>
   \<not> isl (calculer_dates_tot base_cycle (PertCalculator ex_cycle))"
  by code_simp

text \<open>
  Claim C9, as amended. On an acyclic collection that is closed and has unique codes, the
  topological sort of Kahn returns an order that contains the code of every task exactly
  once, each code after the codes of the dependencies of its task. (The only cycle check
  of the calculator is the depth-first search; there is no check on the number of emitted
  tasks.)
\<close>

theorem tri_topologique_emet_tout:
  assumes "collection b ts" and "fermee b ts" and "acyclique b ts"
  shows "\<exists>ordre. tri_topologique b ts = Inr ordre \<and> distinct ordre \<and>
           set ordre = set (map code ts) \<and> length ordre = length ts \<and> topo b ts ordre"
proof -
  from tri_topologique_inv[OF assms(1,2)] obtain ordre where
    o: "tri_topologique b ts = Inr ordre" "distinct ordre" "topo b ts ordre" by blast
  have full: "set ordre = set (map code ts)"
    using tri_topologique_complet[OF assms o(1)] .
  from assms(1) have "distinct (map code ts)" by (rule collection_codes)
  with o(2) full have "length ordre = length (map code ts)"
    by (metis distinct_card)
  with o full show ?thesis by auto
qed

theorem tri_topologique_emet_tout_witness:
  "collection base_parallele ex_parallele \<and> fermee base_parallele ex_parallele \<and>
   acyclique base_parallele ex_parallele \<and>
   (\<exists>ordre. tri_topologique base_parallele ex_parallele = Inr ordre \<and> distinct ordre \<and>
      set ordre = set (map code ex_parallele) \<and> length ordre = length ex_parallele \<and>
      topo base_parallele ex_parallele ordre) \<and>
   tri_topologique base_parallele ex_parallele = Inr [''A'', ''B'', ''D'']"
proof -
  have v: "tri_topologique base_parallele ex_parallele = Inr [''A'', ''B'', ''D'']"
    by code_simp
  from tri_topologique_emet_tout[OF ex_parallele_bien_forme ex_parallele_acyclique]
    ex_parallele_bien_forme ex_parallele_acyclique v
  show ?thesis by blast
qed

section \<open>Cycles (C3)\<close>

text \<open>
  The example of the specification: A depends on B and B depends on A. The caller of
  \<open>calculer\<close> receives the boolean \<open>False\<close>: the \<open>ValueError\<close> raised in the \<open>try\<close> block is
  caught by the \<open>except Exception\<close> clause of \<open>calculer\<close> itself.
\<close>

lemma ex_cycle_cyclique: "\<not> acyclique base_cycle ex_cycle"
proof -
  have "(''A'', ''B'') \<in> dep_rel base_cycle ex_cycle" "(''B'', ''A'') \<in> dep_rel base_cycle ex_cycle"
    by (simp_all add: dep_rel_def ex_cycle_def base_cycle_def ligne_def taches_du_projet_def
        get_dependances_codes_def dependances_def)
  then have "(''A'', ''A'') \<in> (dep_rel base_cycle ex_cycle)\<^sup>+"
    by (rule trancl_trans[OF r_into_trancl r_into_trancl])
  then show ?thesis unfolding acyclique_def acyclic_def by blast
qed

theorem cycle_renvoie_faux:
  "\<not> acyclique base_cycle ex_cycle \<and>
   calculer plateforme_exemple base_cycle (PertCalculator ex_cycle)
     = (False, PertCalculator ex_cycle, base_cycle)"
proof -
  have "calculer plateforme_exemple base_cycle (PertCalculator ex_cycle)
     = (False, PertCalculator ex_cycle, base_cycle)"
    by code_simp
  with ex_cycle_cyclique show ?thesis by blast
qed

text \<open>
  Claim C3, as amended. If the dependency graph of a collection with unique codes has a
  cycle, the \<open>try\<close> block of \<open>calculer\<close> is left at once by a \<open>ValueError\<close>, which
  \<open>calculer\<close> catches itself: the caller receives \<open>False\<close>. No date or slack is computed or
  written: the calculator, with its tasks and its four dictionaries, is as it was built,
  and the database is as it was.
\<close>

theorem cycle_detecte:
  assumes "distinct (map code ts)" and "\<not> acyclique b ts"
  shows "calculer_try p b (PertCalculator ts) =
           (Some (ValueError ''Dependances circulaires detectees dans le projet !''),
            PertCalculator ts, b)
         \<and> calculer p b (PertCalculator ts) = (False, PertCalculator ts, b)"
proof -
  have c: "has_circular_dependency b ts"
    using has_circular_dependency_complet[OF assms(1)] assms(2) by blast
  have "ts \<noteq> []"
  proof
    assume "ts = []"
    then have "acyclique b ts" by (simp add: acyclique_def dep_rel_def acyclic_def)
    with assms(2) show False by simp
  qed
  with c show ?thesis
    by (simp add: calculer_def calculer_try_def PertCalculator_def)
qed

theorem cycle_detecte_witness:
  "distinct (map code ex_cycle_et_tache) \<and> \<not> acyclique base_cycle_et_tache ex_cycle_et_tache \<and>
   calculer_try plateforme_exemple base_cycle_et_tache (PertCalculator ex_cycle_et_tache) =
     (Some (ValueError ''Dependances circulaires detectees dans le projet !''),
      PertCalculator ex_cycle_et_tache, base_cycle_et_tache) \<and>
   calculer plateforme_exemple base_cycle_et_tache (PertCalculator ex_cycle_et_tache)
     = (False, PertCalculator ex_cycle_et_tache, base_cycle_et_tache)"
proof -
  have d: "distinct (map code ex_cycle_et_tache)" by code_simp
  have "(''A'', ''B'') \<in> dep_rel base_cycle_et_tache ex_cycle_et_tache"
    "(''B'', ''A'') \<in> dep_rel base_cycle_et_tache ex_cycle_et_tache"
    by (simp_all add: dep_rel_def ex_cycle_et_tache_def base_cycle_et_tache_def ligne_def
        taches_du_projet_def get_dependances_codes_def dependances_def)
  then have "(''A'', ''A'') \<in> (dep_rel base_cycle_et_tache ex_cycle_et_tache)\<^sup>+"
    by (rule trancl_trans[OF r_into_trancl r_into_trancl])
  then have n: "\<not> acyclique base_cycle_et_tache ex_cycle_et_tache"
    unfolding acyclique_def acyclic_def by blast
  from cycle_detecte[OF d n] d n show ?thesis by blast
qed

section \<open>Dependencies outside the collection (C7)\<close>

text \<open>
  The claim fails. In project 1, B depends on A and on the task X of another project, and
  no task of project 1 has the code X: the run returns \<open>True\<close>, the six fields of both
  tasks are computed and written, and B is stored with the earliest start 0 although A
  ends at 2.
\<close>

theorem dependance_absente_sans_erreur:
  "lignes base_dependance_absente ! 2 \<in> set (dependances base_dependance_absente (ex_dependance_absente ! 1)) \<and>
   code (lignes base_dependance_absente ! 2) = ''X'' \<and>
   ''X'' \<notin> set (map code ex_dependance_absente) \<and>
   fst (calculer plateforme_exemple base_dependance_absente
          (PertCalculator ex_dependance_absente)) \<and>
   map date_debut_tot (taches res_dependance_absente) = [Some 0, Some 0] \<and>
   map date_fin_tot (taches res_dependance_absente) = [Some 2, Some 0] \<and>
   map marge_totale
     (lignes (snd (snd (calculer plateforme_exemple base_dependance_absente
                          (PertCalculator ex_dependance_absente)))))
     = [Some (- 5), Some (- 3), None]"
  by code_simp

text \<open>
  Claim C7, as amended. The calculator has no error for a dependency outside the
  collection, and a run on a collection that has one can return \<open>True\<close>. If a task of a
  collection with unique codes depends on a row whose code no task of the collection has,
  then whenever the run returns \<open>True\<close>, the topological sort has not emitted that task,
  and the task is stored with \<open>date_debut_tot\<close> and \<open>date_fin_tot\<close> equal to 0, the values
  of the initialisation, whatever its duration and its other dependencies.
\<close>

theorem dependance_non_resolue:
  assumes "distinct (map code ts)" and "i < length ts"
    and "d \<in> set (dependances b (ts ! i))" and "code d \<notin> set (map code ts)"
    and "calculer p b (PertCalculator ts) = (True, st', b')"
  shows "\<exists>ordre. tri_topologique b ts = Inr ordre \<and> code (ts ! i) \<notin> set ordre \<and>
           date_debut_tot (taches st' ! i) = Some 0 \<and>
           date_fin_tot (taches st' ! i) = Some 0"
proof -
  from assms(2) have ti: "ts ! i \<in> set ts" and ne: "ts \<noteq> []" by auto
  define ES where "ES = (\<lambda>st2 c. the (debut_tot st2 c))"
  define EF where "EF = (\<lambda>st2 c. the (fin_tot st2 c))"
  from calculer_resultat[OF assms(5) ne] obtain st1 st2 LS LF where
    r: "calculer_dates_tot b (PertCalculator ts) = Inr st1"
       "debut_tot st2 = debut_tot st1" "fin_tot st2 = fin_tot st1"
       "taches st' = map (resultat p b (ES st2) (EF st2) LS LF) ts"
    unfolding ES_def EF_def by blast
  from calculer_dates_tot_gen[OF r(1)] obtain ordre where
    o: "tri_topologique b ts = Inr ordre" "fwd_gen b ts st1 ordre" by blast
  have td: "taches_dict ts (code (ts ! i)) = Some (ts ! i)"
    using taches_dict_distinct[OF assms(1) ti] .
  have notin: "code (ts ! i) \<notin> set ordre"
  proof
    assume "code (ts ! i) \<in> set ordre"
    with o(2) td have "set (get_dependances_codes b (ts ! i)) \<subseteq> set (map code ts)"
      unfolding fwd_gen_def by fastforce
    moreover from assms(3) have "code d \<in> set (get_dependances_codes b (ts ! i))"
      by (simp add: get_dependances_codes_def)
    ultimately show False using assms(4) by blast
  qed
  with o(2) ti have "debut_tot st1 (code (ts ! i)) = Some 0" "fin_tot st1 (code (ts ! i)) = Some 0"
    unfolding fwd_gen_def by auto
  then have "ES st2 (code (ts ! i)) = 0" "EF st2 (code (ts ! i)) = 0"
    unfolding ES_def EF_def r(2,3) by simp_all
  moreover from r(4) assms(2) have
    "taches st' ! i = resultat p b (ES st2) (EF st2) LS LF (ts ! i)" by simp
  ultimately have "date_debut_tot (taches st' ! i) = Some 0"
    "date_fin_tot (taches st' ! i) = Some 0"
    by (simp_all add: resultat_champs)
  with o(1) notin show ?thesis by blast
qed

theorem dependance_non_resolue_witness:
  "distinct (map code ex_dependance_absente) \<and> 1 < length ex_dependance_absente \<and>
   lignes base_dependance_absente ! 2
     \<in> set (dependances base_dependance_absente (ex_dependance_absente ! 1)) \<and>
   code (lignes base_dependance_absente ! 2) \<notin> set (map code ex_dependance_absente) \<and>
   calculer plateforme_exemple base_dependance_absente (PertCalculator ex_dependance_absente)
     = (True, res_dependance_absente,
        snd (snd (calculer plateforme_exemple base_dependance_absente
                    (PertCalculator ex_dependance_absente)))) \<and>
   duree (ex_dependance_absente ! 1) = 3 \<and>
   (\<exists>ordre. tri_topologique base_dependance_absente ex_dependance_absente = Inr ordre \<and>
      code (ex_dependance_absente ! 1) \<notin> set ordre \<and>
      date_debut_tot (taches res_dependance_absente ! 1) = Some 0 \<and>
      date_fin_tot (taches res_dependance_absente ! 1) = Some 0)"
proof -
  have h: "distinct (map code ex_dependance_absente)" "1 < length ex_dependance_absente"
    "lignes base_dependance_absente ! 2
       \<in> set (dependances base_dependance_absente (ex_dependance_absente ! 1))"
    "code (lignes base_dependance_absente ! 2) \<notin> set (map code ex_dependance_absente)"
    by code_simp+
  have c: "calculer plateforme_exemple base_dependance_absente
               (PertCalculator ex_dependance_absente)
     = (True, res_dependance_absente,
        snd (snd (calculer plateforme_exemple base_dependance_absente
                    (PertCalculator ex_dependance_absente))))"
    by code_simp
  have v: "duree (ex_dependance_absente ! 1) = 3" by code_simp
  from dependance_non_resolue[OF h c] h c v show ?thesis by blast
qed

section \<open>Durations (C8)\<close>

text \<open>
  The claim fails. A single task of duration \<open>-3\<close>, which \<open>Tache.clean\<close> rejects: the run
  returns \<open>True\<close> and stores the earliest finish \<open>-3\<close>. The calculator never calls
  \<open>Tache.clean\<close> and has no check of its own.
\<close>

theorem duree_negative_acceptee:
  "duree (ex_duree_negative ! 0) = - 3 \<and>
   clean plateforme_exemple (ex_duree_negative ! 0)
     = Inl (ValidationError ''La duree doit etre superieure a 0'') \<and>
   calculer plateforme_exemple base_duree_negative (PertCalculator ex_duree_negative)
     = (True, res_duree_negative,
        snd (snd (calculer plateforme_exemple base_duree_negative
                    (PertCalculator ex_duree_negative)))) \<and>
   map date_debut_tot (taches res_duree_negative) = [Some 0] \<and>
   map date_fin_tot (taches res_duree_negative) = [Some (- 3)] \<and>
   map date_fin_tot
     (lignes (snd (snd (calculer plateforme_exemple base_duree_negative
                          (PertCalculator ex_duree_negative)))))
     = [Some (- 3)]"
  by code_simp

text \<open>
  Claim C8, as amended. The calculator does not validate the durations: it uses each of
  them as it is supplied, zero and negative included. Whenever a run on a collection with
  unique codes returns \<open>True\<close>, every task that the topological sort has emitted is stored
  with \<open>date_fin_tot\<close> equal to \<open>date_debut_tot\<close> plus its duration.
\<close>

theorem durees_non_validees:
  assumes "distinct (map code ts)"
    and "calculer p b (PertCalculator ts) = (True, st', b')"
  shows "\<exists>ordre. tri_topologique b ts = Inr ordre \<and>
           (\<forall>i < length ts. code (ts ! i) \<in> set ordre \<longrightarrow>
              (\<exists>d. date_debut_tot (taches st' ! i) = Some d \<and>
                   date_fin_tot (taches st' ! i) = Some (d + duree (ts ! i))))"
proof (cases "ts = []")
  case True
  then show ?thesis by (simp add: tri_topologique_def in_degree_init_def)
next
  case ne: False
  define ES where "ES = (\<lambda>st2 c. the (debut_tot st2 c))"
  define EF where "EF = (\<lambda>st2 c. the (fin_tot st2 c))"
  from calculer_resultat[OF assms(2) ne] obtain st1 st2 LS LF where
    r: "calculer_dates_tot b (PertCalculator ts) = Inr st1"
       "debut_tot st2 = debut_tot st1" "fin_tot st2 = fin_tot st1"
       "taches st' = map (resultat p b (ES st2) (EF st2) LS LF) ts"
    unfolding ES_def EF_def by blast
  from calculer_dates_tot_gen[OF r(1)] obtain ordre where
    o: "tri_topologique b ts = Inr ordre" "fwd_gen b ts st1 ordre" by blast
  have "\<forall>i < length ts. code (ts ! i) \<in> set ordre \<longrightarrow>
              (\<exists>d. date_debut_tot (taches st' ! i) = Some d \<and>
                   date_fin_tot (taches st' ! i) = Some (d + duree (ts ! i)))"
  proof (intro allI impI)
    fix i assume i: "i < length ts" and c: "code (ts ! i) \<in> set ordre"
    from i have ti: "ts ! i \<in> set ts" by simp
    have td: "taches_dict ts (code (ts ! i)) = Some (ts ! i)"
      using taches_dict_distinct[OF assms(1) ti] .
    from o(2) c td have "fin_tot st1 (code (ts ! i))
        = Some (the (debut_tot st1 (code (ts ! i))) + duree (ts ! i))"
      unfolding fwd_gen_def by fastforce
    then have "EF st2 (code (ts ! i)) = ES st2 (code (ts ! i)) + duree (ts ! i)"
      unfolding ES_def EF_def r(2,3) by simp
    moreover from r(4) i have
      "taches st' ! i = resultat p b (ES st2) (EF st2) LS LF (ts ! i)" by simp
    ultimately show "\<exists>d. date_debut_tot (taches st' ! i) = Some d \<and>
                   date_fin_tot (taches st' ! i) = Some (d + duree (ts ! i))"
      by (simp add: resultat_champs)
  qed
  with o(1) show ?thesis by blast
qed

text \<open>
  The theorem on a project in which B, of duration 0, depends on A, of duration \<open>-3\<close>:
  both are emitted, A is stored from 0 to \<open>-3\<close> and B from \<open>-3\<close> to \<open>-3\<close>.
\<close>

theorem durees_non_validees_witness:
  "distinct (map code ex_durees_nulles) \<and>
   calculer plateforme_exemple base_durees_nulles (PertCalculator ex_durees_nulles)
     = (True, res_durees_nulles,
        snd (snd (calculer plateforme_exemple base_durees_nulles
                    (PertCalculator ex_durees_nulles)))) \<and>
   map duree ex_durees_nulles = [- 3, 0] \<and>
   tri_topologique base_durees_nulles ex_durees_nulles = Inr [''A'', ''B''] \<and>
   (\<exists>d. date_debut_tot (taches res_durees_nulles ! 0) = Some d \<and>
        date_fin_tot (taches res_durees_nulles ! 0) = Some (d + duree (ex_durees_nulles ! 0))) \<and>
   (\<exists>d. date_debut_tot (taches res_durees_nulles ! 1) = Some d \<and>
        date_fin_tot (taches res_durees_nulles ! 1) = Some (d + duree (ex_durees_nulles ! 1))) \<and>
   map date_debut_tot (taches res_durees_nulles) = [Some 0, Some (- 3)] \<and>
   map date_fin_tot (taches res_durees_nulles) = [Some (- 3), Some (- 3)]"
proof -
  have h: "distinct (map code ex_durees_nulles)" by code_simp
  have c: "calculer plateforme_exemple base_durees_nulles (PertCalculator ex_durees_nulles)
     = (True, res_durees_nulles,
        snd (snd (calculer plateforme_exemple base_durees_nulles
                    (PertCalculator ex_durees_nulles))))"
    by code_simp
  have v: "map duree ex_durees_nulles = [- 3, 0]"
    "tri_topologique base_durees_nulles ex_durees_nulles = Inr [''A'', ''B'']"
    "map date_debut_tot (taches res_durees_nulles) = [Some 0, Some (- 3)]"
    "map date_fin_tot (taches res_durees_nulles) = [Some (- 3), Some (- 3)]"
    by code_simp+
  have l: "0 < length ex_durees_nulles" "1 < length ex_durees_nulles"
    "code (ex_durees_nulles ! 0) \<in> set [''A'', ''B'']"
    "code (ex_durees_nulles ! 1) \<in> set [''A'', ''B'']"
    by code_simp+
  from durees_non_validees[OF h c] v(2) l
  have "(\<exists>d. date_debut_tot (taches res_durees_nulles ! 0) = Some d \<and>
        date_fin_tot (taches res_durees_nulles ! 0) = Some (d + duree (ex_durees_nulles ! 0)))"
    "(\<exists>d. date_debut_tot (taches res_durees_nulles ! 1) = Some d \<and>
        date_fin_tot (taches res_durees_nulles ! 1) = Some (d + duree (ex_durees_nulles ! 1)))"
    by auto
  with h c v show ?thesis by blast
qed

section \<open>The empty collection (C10)\<close>

text \<open>
  Claim C10. Called on an empty task list, \<open>calculer\<close> returns \<open>True\<close> at once: the
  calculator is returned as it was built, with its four date dictionaries empty and no task
  touched, and the database is as it was. The guard matters, since the backward pass on
  the same calculator would raise the \<open>ValueError\<close> of \<open>max\<close> on an empty sequence.
\<close>

theorem calculer_empty:
  "calculer p b (PertCalculator []) = (True, PertCalculator [], b)
   \<and> calculer_dates_tard b (PertCalculator [])
       = Inl (ValueError ''max() arg is an empty sequence'', PertCalculator [])"
  by (simp add: calculer_def PertCalculator_def calculer_dates_tard_def py_max_def
      dict_values_def)

end
